theory Spec2Isabelle
  imports
    Complex_Main
    "HOL-Library.AList"
    "HOL-Library.Sublist"
    "HOL-Library.Multiset"
    "HOL-Library.Char_ord"
    "HOL-Library.List_Lexorder"
    "HOL-Library.Product_Lexorder"
    "HOL-Library.Option_ord"
begin

section \<open>Text utilities of \<^verbatim>\<open>bot_news_optimized.py\<close>\<close>

text \<open>
  Python strings are modelled as \<^typ>\<open>string\<close>: a list of 8-bit characters, read as
  the code points 0..255. On this range \<^verbatim>\<open>str.isspace\<close>, \<^verbatim>\<open>str.strip\<close>,
  \<^verbatim>\<open>str.split\<close> and the regular expression class \<^verbatim>\<open>\s\<close> share one notion of
  white space, and \<^verbatim>\<open>str.lower\<close> moves A..Z and the Latin-1 capitals by 32.
\<close>

definition is_space :: "char \<Rightarrow> bool" where
  "is_space c = ((of_char c :: nat) \<in> set [9, 10, 11, 12, 13, 28, 29, 30, 31, 32, 133, 160])"

definition lower_char :: "char \<Rightarrow> char" where
  "lower_char c =
     (let n = (of_char c :: nat) in
      if (65 \<le> n \<and> n \<le> 90) \<or> (192 \<le> n \<and> n \<le> 222 \<and> n \<noteq> 215)
      then char_of (n + 32) else c)"

definition py_lower :: "string \<Rightarrow> string" where
  "py_lower s = map lower_char s"

text \<open>\<^verbatim>\<open>_WORD_RE = re.compile(r"[A-Za-z0-9']+")\<close>: the character class.\<close>

definition is_word_char :: "char \<Rightarrow> bool" where
  "is_word_char c =
     (let n = (of_char c :: nat) in
      (65 \<le> n \<and> n \<le> 90) \<or> (97 \<le> n \<and> n \<le> 122) \<or> (48 \<le> n \<and> n \<le> 57) \<or> n = 39)"

text \<open>
  The maximal non-empty runs of characters that satisfy \<open>P\<close>, left to right:
  \<^verbatim>\<open>re.findall\<close> of a one-class pattern \<^verbatim>\<open>[...]+\<close>, and \<^verbatim>\<open>str.split()\<close> when
  \<open>P\<close> is "not white space". \<open>cur\<close> is the run being read.
\<close>

fun runs :: "(char \<Rightarrow> bool) \<Rightarrow> string \<Rightarrow> string \<Rightarrow> string list" where
  "runs P cur [] = (if cur = [] then [] else [cur])"
| "runs P cur (c # cs) =
     (if P c then runs P (cur @ [c]) cs
      else if cur = [] then runs P [] cs
      else cur # runs P [] cs)"

definition py_split :: "string \<Rightarrow> string list" where
  "py_split s = runs (\<lambda>c. \<not> is_space c) [] s"

definition py_strip :: "string \<Rightarrow> string" where
  "py_strip s = rev (dropWhile is_space (rev (dropWhile is_space s)))"

text \<open>\<^verbatim>\<open>" ".join(xs)\<close>\<close>

fun join_space :: "string list \<Rightarrow> string" where
  "join_space [] = []"
| "join_space [x] = x"
| "join_space (x # y # ys) = x @ '' '' @ join_space (y # ys)"

text \<open>
  \<^verbatim>\<open>xs[:n]\<close> for a Python integer \<open>n\<close>: the first \<open>n\<close> elements, and for a negative
  \<open>n\<close> all but the last \<open>-n\<close>.
\<close>

definition py_prefix :: "'a list \<Rightarrow> int \<Rightarrow> 'a list" where
  "py_prefix xs n = (if 0 \<le> n then take (nat n) xs else take (length xs - nat (- n)) xs)"

text \<open>
  \<^verbatim>\<open>xs.index(x)\<close>: the position of the first occurrence. Python raises ValueError when
  there is none; that outcome is the value \<open>None\<close>.
\<close>

fun py_index :: "'a list \<Rightarrow> 'a \<Rightarrow> nat option" where
  "py_index [] x = None"
| "py_index (y # ys) x = (if y = x then Some 0 else map_option Suc (py_index ys x))"

text \<open>
  \<^verbatim>\<open>sorted(xs, key=f, reverse=True)\<close>: CPython reverses the list, sorts it with its
  stable sort and reverses the result, so elements with equal keys keep their order.
\<close>

definition sorted_reverse :: "('a \<Rightarrow> 'k::linorder) \<Rightarrow> 'a list \<Rightarrow> 'a list" where
  "sorted_reverse f xs = rev (sort_key f (rev xs))"

text \<open>
  A Python dict that is iterated: an association list in insertion order.
  \<^verbatim>\<open>d[k] = v\<close> is \<^const>\<open>AList.update\<close> (a new key goes to the end, a known key keeps
  its place), \<^verbatim>\<open>d.get(k, dflt)\<close> is \<open>dict_get\<close>, \<^verbatim>\<open>d.get(k)\<close> is \<^const>\<open>map_of\<close>.
\<close>

definition dict_get :: "('k \<times> 'v) list \<Rightarrow> 'k \<Rightarrow> 'v \<Rightarrow> 'v" where
  "dict_get d k dflt = (case map_of d k of None \<Rightarrow> dflt | Some v \<Rightarrow> v)"

definition STOPWORDS :: "string list" where
  "STOPWORDS =
    [''a'', ''an'', ''and'', ''the'', ''to'', ''of'', ''in'', ''on'', ''for'', ''at'', ''by'',
     ''from'', ''with'', ''as'', ''is'', ''are'', ''was'', ''were'', ''be'', ''been'',
     ''being'', ''that'', ''this'', ''it'', ''its'', ''if'', ''but'', ''or'', ''not'', ''no'',
     ''so'', ''than'', ''then'', ''too'', ''very'', ''can'', ''could'', ''should'', ''would'',
     ''may'', ''might'', ''will'', ''shall'', ''into'', ''about'', ''over'', ''after'',
     ''before'', ''up'', ''down'', ''out'', ''off'', ''only'', ''just'', ''also'', ''more'',
     ''most'', ''other'', ''some'', ''such'', ''any'', ''each'', ''few'', ''both'', ''many'',
     ''much'', ''own'', ''same'']"

text \<open>\<^verbatim>\<open>_fast_words\<close>\<close>

definition fast_words :: "string \<Rightarrow> string list" where
  "fast_words text =
     filter (\<lambda>w. w \<noteq> [] \<and> w \<notin> set STOPWORDS) (runs is_word_char [] (py_lower text))"

text \<open>
  \<^verbatim>\<open>_TAG_STRIP_RE.sub("", text)\<close> with \<^verbatim>\<open>_TAG_STRIP_RE = <[^>]+>\<close>: a \<^verbatim>\<open><\<close> that is
  followed by at least one character other than \<^verbatim>\<open>>\<close> and then by a \<^verbatim>\<open>>\<close> is removed
  together with everything up to that \<^verbatim>\<open>>\<close>; any other character is kept.
\<close>

function tag_strip :: "string \<Rightarrow> string" where
  "tag_strip [] = []"
| "tag_strip (c # cs) =
     (if c = CHR ''<'' \<and> takeWhile (\<lambda>d. d \<noteq> CHR ''>'') cs \<noteq> []
         \<and> dropWhile (\<lambda>d. d \<noteq> CHR ''>'') cs \<noteq> []
      then tag_strip (tl (dropWhile (\<lambda>d. d \<noteq> CHR ''>'') cs))
      else c # tag_strip cs)"
  by pat_completeness auto
termination
proof (relation "measure length")
  fix c :: char and cs :: string
  have "length (tl (dropWhile (\<lambda>d. d \<noteq> CHR ''>'') cs)) \<le> length cs"
    using length_dropWhile_le [of "\<lambda>d. d \<noteq> CHR ''>''" cs] by simp
  then show "(tl (dropWhile (\<lambda>d. d \<noteq> CHR ''>'') cs), c # cs) \<in> measure length"
    by simp
qed simp_all

text \<open>
  \<^verbatim>\<open>html.unescape\<close> of the standard library returns a string without \<^verbatim>\<open>&\<close> as it is
  and otherwise substitutes the character references, by a table that is not part of this
  repository: that substitution is the parameter \<open>charref\<close>.
\<close>

definition html_unescape :: "(string \<Rightarrow> string) \<Rightarrow> string \<Rightarrow> string" where
  "html_unescape charref s = (if CHR ''&'' \<notin> set s then s else charref s)"

text \<open>
  \<^verbatim>\<open>_SENT_SPLIT_RE.split(text)\<close> with \<^verbatim>\<open>_SENT_SPLIT_RE = (?<=[.!?])\s+\<close>: the text is
  cut at every run of white space that follows one of \<^verbatim>\<open>. ! ?\<close>, and the run is dropped.
  \<open>cur\<close> is the piece being read; the character before a position is its last one.
\<close>

function sent_split :: "string \<Rightarrow> string \<Rightarrow> string list" where
  "sent_split cur [] = [cur]"
| "sent_split cur (c # cs) =
     (if is_space c \<and> cur \<noteq> [] \<and> last cur \<in> set ''.!?''
      then cur # sent_split [] (dropWhile is_space cs)
      else sent_split (cur @ [c]) cs)"
  by pat_completeness auto
termination
proof (relation "measure (\<lambda>(cur, cs). length cs)")
  fix cur :: string and c :: char and cs :: string
  show "(([], dropWhile is_space cs), (cur, c # cs)) \<in> measure (\<lambda>(cur, cs). length cs)"
    using length_dropWhile_le [of is_space cs] by simp
qed simp_all

text \<open>\<^verbatim>\<open>_fast_sentences\<close>\<close>

definition fast_sentences :: "(string \<Rightarrow> string) \<Rightarrow> string \<Rightarrow> string list" where
  "fast_sentences charref text =
     (let text1 = tag_strip text;
          text2 = html_unescape charref text1;
          sents = sent_split [] (py_strip text2)
      in map py_strip (filter (\<lambda>s. 3 \<le> length (py_split (py_strip s))) sents))"

section \<open>Extractive summarisation\<close>

text \<open>
  The scores are Python floats. Their arithmetic is a parameter: \<open>fdiv\<close> is the true
  division of two counts, \<open>fadd\<close> the float addition and \<open>fzero\<close> the float \<open>0.0\<close>; all
  that is asked of the float type is that it is linearly ordered. Every result below holds
  for every such arithmetic, the IEEE one included.
\<close>

record 'f float_ops =
  fdiv :: "nat \<Rightarrow> nat \<Rightarrow> 'f"
  fadd :: "'f \<Rightarrow> 'f \<Rightarrow> 'f"
  fzero :: "'f"

text \<open>\<^verbatim>\<open>sum(...)\<close> of floats: added left to right, from zero.\<close>

definition py_sum :: "'f float_ops \<Rightarrow> 'f list \<Rightarrow> 'f" where
  "py_sum ops xs = foldl (fadd ops) (fzero ops) xs"

text \<open>\<^verbatim>\<open>for w in words: freq[w] = freq.get(w, 0) + 1\<close>\<close>

definition term_frequency :: "string list \<Rightarrow> (string \<times> nat) list" where
  "term_frequency words = foldl (\<lambda>freq w. AList.update w (dict_get freq w 0 + 1) freq) [] words"

text \<open>\<^verbatim>\<open>max_f = max(freq.values()); for k in list(freq): freq[k] = freq[k] / max_f\<close>\<close>

definition normalise_frequency :: "'f float_ops \<Rightarrow> (string \<times> nat) list \<Rightarrow> (string \<times> 'f) list" where
  "normalise_frequency ops freq =
     (let max_f = Max (set (map snd freq)) in map (\<lambda>(k, c). (k, fdiv ops c max_f)) freq)"

text \<open>The loop that fills \<^verbatim>\<open>scores\<close>, keyed by the sentence string.\<close>

definition score_step ::
  "'f float_ops \<Rightarrow> (string \<times> 'f) list \<Rightarrow> (string \<times> 'f) list \<Rightarrow> string \<Rightarrow> (string \<times> 'f) list" where
  "score_step ops freq scores s =
     (let sw = fast_words s in
      if length sw < 3 then scores
      else AList.update s (py_sum ops (map (\<lambda>w. dict_get freq w (fzero ops)) sw)) scores)"

definition sentence_scores ::
  "'f float_ops \<Rightarrow> (string \<times> 'f) list \<Rightarrow> string list \<Rightarrow> (string \<times> 'f) list" where
  "sentence_scores ops freq sentences = foldl (score_step ops freq) [] sentences"

text \<open>
  \<^verbatim>\<open>sorted(sorted(scores, key=scores.get, reverse=True)[:max_sentences],
  key=lambda s: sentences.index(s))\<close>
\<close>

definition top_sentences :: "('f::linorder) float_ops \<Rightarrow> (string \<times> 'f) list \<Rightarrow> string list \<Rightarrow> int \<Rightarrow> string list" where
  "top_sentences ops scores sentences max_sentences =
     sort_key (py_index sentences)
       (py_prefix (sorted_reverse (map_of scores) (map fst scores)) max_sentences)"

text \<open>
  The scores that \<^verbatim>\<open>summarizeText\<close> computes for a text whose word list is not empty.
\<close>

definition text_scores :: "'f float_ops \<Rightarrow> (string \<Rightarrow> string) \<Rightarrow> string \<Rightarrow> (string \<times> 'f) list" where
  "text_scores ops charref text =
     sentence_scores ops (normalise_frequency ops (term_frequency (fast_words text)))
       (fast_sentences charref text)"

text \<open>
  The list of sentences that \<^verbatim>\<open>summarizeText\<close> joins: every \<^verbatim>\<open>return\<close> of the
  function is \<^verbatim>\<open>" ".join\<close> of a list, or the empty string, the join of no sentence.
\<close>

definition summary_sentences ::
  "('f::linorder) float_ops \<Rightarrow> (string \<Rightarrow> string) \<Rightarrow> string \<Rightarrow> int \<Rightarrow> string list" where
  "summary_sentences ops charref text max_sentences =
     (if text = [] then []
      else let sentences = fast_sentences charref text in
        if sentences = [] then []
        else let words = fast_words text in
          if words = [] then py_prefix sentences max_sentences
          else let scores = text_scores ops charref text in
            if scores = [] then py_prefix sentences max_sentences
            else top_sentences ops scores sentences max_sentences)"

definition summarizeText ::
  "('f::linorder) float_ops \<Rightarrow> (string \<Rightarrow> string) \<Rightarrow> string \<Rightarrow> int \<Rightarrow> string" where
  "summarizeText ops charref text max_sentences =
     join_space (summary_sentences ops charref text max_sentences)"

text \<open>The exact arithmetic on rationals, for evaluating examples whose floats are exact.\<close>

definition exact_ops :: "rat float_ops" where
  "exact_ops = \<lparr> fdiv = (\<lambda>a b. of_nat a / of_nat b), fadd = (+), fzero = 0 \<rparr>"

section \<open>Sentiment\<close>

datatype exn =
  AttributeError | TypeError | ValueError | LookupError | RequestException | ParserError

datatype label = Positive | Negative | Neutral

text \<open>
  The dict that \<^verbatim>\<open>analyze_sentiment\<close> returns: its numeric entries in insertion order, and
  the entry \<^verbatim>\<open>"label"\<close>. Floats are the rationals they denote. The literal \<^verbatim>\<open>0.05\<close> is
  read as \<open>1/20\<close>: no double lies between \<open>1/20\<close> and the double nearest to it, so a double
  compares with either in the same way.
\<close>

record sentiment =
  sent_scores :: "(string \<times> rat) list"
  sent_label :: label

definition neutral_sentiment :: sentiment where
  "neutral_sentiment = \<lparr> sent_scores = [(''compound'', 0)], sent_label = Neutral \<rparr>"

definition sentiment_label :: "rat \<Rightarrow> label" where
  "sentiment_label cmp =
     (if cmp \<ge> 0.05 then Positive else if cmp \<le> - 0.05 then Negative else Neutral)"

text \<open>
  \<^verbatim>\<open>analyze_sentiment\<close>. The first argument is the module global \<^verbatim>\<open>_VADER_SIA\<close> as a
  completed import of the module has left it: \<open>None\<close> (the import of the scorer failed), or
  the \<^verbatim>\<open>polarity_scores\<close> of the scorer that was constructed (a library outside this
  repository).
\<close>

definition analyze_sentiment ::
  "(string \<Rightarrow> (string \<times> rat) list) option \<Rightarrow> string option \<Rightarrow> sentiment" where
  "analyze_sentiment sia text =
     (case text of
        None \<Rightarrow> neutral_sentiment
      | Some t \<Rightarrow>
          if t = [] then neutral_sentiment
          else (case sia of
                  None \<Rightarrow> neutral_sentiment
                | Some polarity_scores \<Rightarrow>
                    let scores = polarity_scores (take 5000 t);
                        cmp = dict_get scores ''compound'' 0
                    in \<lparr> sent_scores = scores, sent_label = sentiment_label cmp \<rparr>))"

text \<open>
  The sentiment library as the process finds it: the package cannot be imported; or it can,
  but its lexicon resource is not installed; or both are there, with the
  \<^verbatim>\<open>polarity_scores\<close> of the scorer.
\<close>

datatype lexicon_env =
  PackageMissing
  | LexiconMissing
  | LexiconPresent "string \<Rightarrow> (string \<times> rat) list"

text \<open>
  The module-level statements that set \<^verbatim>\<open>_VADER_SIA\<close>. The import stands in a
  \<^verbatim>\<open>try\<close> whose handler sets \<^verbatim>\<open>_have_vader = False\<close>. The construction
  \<^verbatim>\<open>_VADER_SIA = _VADER() if _have_vader else None\<close> stands in none: the constructor loads
  the lexicon and raises LookupError when the resource is missing, and the exception leaves
  the import of the module (\<open>Inl\<close>).
\<close>

definition load_vader :: "lexicon_env \<Rightarrow> exn + (string \<Rightarrow> (string \<times> rat) list) option" where
  "load_vader env =
     (case env of
        PackageMissing \<Rightarrow> Inr None
      | LexiconMissing \<Rightarrow> Inl LookupError
      | LexiconPresent polarity_scores \<Rightarrow> Inr (Some polarity_scores))"

text \<open>
  \<^verbatim>\<open>analyze_sentiment(text)\<close> in a process with that library: the module is imported, then
  the function is called.
\<close>

definition module_analyze_sentiment :: "lexicon_env \<Rightarrow> string option \<Rightarrow> exn + sentiment" where
  "module_analyze_sentiment env text =
     (case load_vader env of
        Inl e \<Rightarrow> Inl e
      | Inr sia \<Rightarrow> Inr (analyze_sentiment sia text))"

section \<open>Article fetch and the cache\<close>

text \<open>
  The result of a GET: the request raises, or it answers with a status code and a body.
\<close>

datatype 'b http_result = HttpRaises exn | HttpResponse int 'b

record fetch_result =
  fr_text :: string
  fr_image :: "string option"

text \<open>
  A headline as the API delivers it. \<^verbatim>\<open>url\<close>, \<^verbatim>\<open>title\<close> and \<^verbatim>\<open>description\<close> are
  strings, or \<open>None\<close> when the key is missing or null. \<^verbatim>\<open>source\<close> is missing or falsy, or
  an object with an optional \<^verbatim>\<open>name\<close>, or (\<open>SourceOther\<close>) some other truthy JSON value, a
  string say, which has no \<^verbatim>\<open>.get\<close>.
\<close>

datatype source_field = SourceMissing | SourceObject "string option" | SourceOther

record headline =
  h_url :: "string option"
  h_title :: "string option"
  h_description :: "string option"
  h_source :: source_field

text \<open>The query of \<^verbatim>\<open>_gnews_request\<close> and what the API answers.\<close>

record gnews_query =
  q_token :: string
  q_lang :: string
  q_topic :: string
  q_max :: int
  q_country :: "string option"

text \<open>
  The body of a 200 answer: \<^verbatim>\<open>r.json()\<close> raises, or gives an object whose
  \<^verbatim>\<open>"articles"\<close> is missing or null (\<open>None\<close>) or a list.
\<close>

type_synonym gnews_body = "exn + headline list option"

text \<open>
  Everything outside the repository that the pipeline consults: the network, the HTML
  parser behind \<^verbatim>\<open>_extract_article_text\<close>, the sentiment scorer \<^verbatim>\<open>_VADER_SIA\<close> of the
  imported module, the character references of \<^verbatim>\<open>html.unescape\<close>, SHA-1 and the float
  arithmetic. The same world answers the same request in the same way: it is the input data
  of a run.
\<close>

record 'f world =
  http_get :: "string \<Rightarrow> string http_result"
  extract_article_text :: "string \<Rightarrow> exn + (string \<times> string option)"
  gnews_get :: "gnews_query \<Rightarrow> gnews_body http_result"
  vader_sia :: "(string \<Rightarrow> (string \<times> rat) list) option"
  charrefs :: "string \<Rightarrow> string"
  sha1_hex :: "string \<Rightarrow> string"
  arith :: "'f float_ops"

text \<open>
  The process state: \<^verbatim>\<open>_CACHE\<close>, and the log of the article urls requested over the
  network, oldest first.
\<close>

record state =
  cache :: "string \<rightharpoonup> fetch_result"
  requests :: "string list"

text \<open>The \<^verbatim>\<open>try\<close> block of \<^verbatim>\<open>fetchArticle\<close>.\<close>

definition fetch_try :: "'f world \<Rightarrow> string \<Rightarrow> exn + fetch_result" where
  "fetch_try w url =
     (case http_get w url of
        HttpRaises e \<Rightarrow> Inl e
      | HttpResponse status_code body \<Rightarrow>
          if status_code \<noteq> 200 then Inr \<lparr> fr_text = [], fr_image = None \<rparr>
          else (case extract_article_text w body of
                  Inl e \<Rightarrow> Inl e
                | Inr (text, img) \<Rightarrow> Inr \<lparr> fr_text = text, fr_image = img \<rparr>))"

text \<open>
  \<^verbatim>\<open>fetchArticle\<close> holds no lock, and it blocks in the request: between its look at the
  cache and its write to the cache other threads may run. So it is two steps. The first is
  the look at the cache and, on a miss, the \<^verbatim>\<open>try\<close> statement with the request; its
  outcome is what the call then holds in its local variables.
\<close>

datatype lookup = Cached fetch_result | Fetched fetch_result

definition fetch_lookup :: "'f world \<Rightarrow> string \<Rightarrow> state \<Rightarrow> lookup \<times> state" where
  "fetch_lookup w url st =
     (case cache st url of
        Some cached \<Rightarrow> (Cached cached, st)
      | None \<Rightarrow>
          let result = (case fetch_try w url of
                          Inr r \<Rightarrow> r
                        | Inl e \<Rightarrow> \<lparr> fr_text = [], fr_image = None \<rparr>)
          in (Fetched result, st \<lparr> requests := requests st @ [url] \<rparr>))"

text \<open>
  The second step: \<^verbatim>\<open>return _CACHE[url]\<close> after a hit, and
  \<^verbatim>\<open>_CACHE[url] = result; return result\<close> after a miss, whatever the cache holds by then.
\<close>

definition fetch_store :: "string \<Rightarrow> lookup \<Rightarrow> state \<Rightarrow> fetch_result \<times> state" where
  "fetch_store url found st =
     (case found of
        Cached cached \<Rightarrow> (cached, st)
      | Fetched result \<Rightarrow> (result, st \<lparr> cache := (cache st)(url \<mapsto> result) \<rparr>))"

text \<open>
  \<^verbatim>\<open>fetchArticle\<close> when no other call runs between its two steps. \<open>Inl\<close> would be an
  exception that leaves the function, \<open>Inr\<close> is the value returned together with the state
  left behind.
\<close>

definition fetchArticle :: "'f world \<Rightarrow> string \<Rightarrow> state \<Rightarrow> exn + (fetch_result \<times> state)" where
  "fetchArticle w url st =
     (let looked = fetch_lookup w url st
      in Inr (fetch_store url (fst looked) (snd looked)))"

text \<open>
  Two calls of \<^verbatim>\<open>fetchArticle\<close> for one url that overlap: the second has looked at the cache
  (in the world \<open>w2\<close>, the network as it answers then) before the first has written. The
  result is what the first call returns, the state after its write, what the second call
  returns and the state after its write.
\<close>

definition overlapping_fetch ::
  "'f world \<Rightarrow> 'f world \<Rightarrow> string \<Rightarrow> state
     \<Rightarrow> (fetch_result \<times> state) \<times> (fetch_result \<times> state)" where
  "overlapping_fetch w1 w2 url st =
     (let looked1 = fetch_lookup w1 url st;
          looked2 = fetch_lookup w2 url (snd looked1);
          stored1 = fetch_store url (fst looked1) (snd looked2);
          stored2 = fetch_store url (fst looked2) (snd stored1)
      in (stored1, stored2))"

section \<open>Headlines\<close>

definition DEFAULT_LANG :: string where
  "DEFAULT_LANG = ''en''"

text \<open>\<^verbatim>\<open>x or dflt\<close> for a string that may be missing.\<close>

definition str_or :: "string option \<Rightarrow> string \<Rightarrow> string" where
  "str_or x dflt = (case x of None \<Rightarrow> dflt | Some s \<Rightarrow> if s = [] then dflt else s)"

text \<open>\<^verbatim>\<open>_gnews_request\<close>\<close>

definition gnews_request ::
  "'f world \<Rightarrow> string \<Rightarrow> string \<Rightarrow> int \<Rightarrow> string option \<Rightarrow> exn + headline list" where
  "gnews_request w api_key category max_items country =
     (let params = \<lparr> q_token = api_key, q_lang = DEFAULT_LANG, q_topic = category,
                      q_max = max_items,
                      q_country = (if str_or country [] = [] then None else country) \<rparr>
      in case gnews_get w params of
           HttpRaises e \<Rightarrow> Inl e
         | HttpResponse status_code body \<Rightarrow>
             if status_code \<noteq> 200 then Inr []
             else (case body of
                     Inl e \<Rightarrow> Inl e
                   | Inr None \<Rightarrow> Inr []
                   | Inr (Some articles) \<Rightarrow> Inr articles))"

text \<open>\<^verbatim>\<open>it.get("url") or ""\<close>\<close>

definition url_of :: "headline \<Rightarrow> string" where
  "url_of it = str_or (h_url it) []"

text \<open>The body of the inner loop of step 1: \<open>(headlines, seen_urls)\<close> before and after.\<close>

definition add_item :: "headline list \<times> string set \<Rightarrow> headline \<Rightarrow> headline list \<times> string set" where
  "add_item acc it =
     (let url = url_of it in
      if url = [] \<or> url \<in> snd acc then acc
      else (fst acc @ [it], insert url (snd acc)))"

text \<open>
  The body of the outer loop: an exception of the request skips the category.
\<close>

definition add_category ::
  "'f world \<Rightarrow> string \<Rightarrow> int \<Rightarrow> string option \<Rightarrow> headline list \<times> string set \<Rightarrow> string
     \<Rightarrow> headline list \<times> string set" where
  "add_category w api_key per_category country acc cat =
     (case gnews_request w api_key cat per_category country of
        Inl e \<Rightarrow> acc
      | Inr items \<Rightarrow> foldl add_item acc items)"

definition collect_headlines ::
  "'f world \<Rightarrow> string \<Rightarrow> string list \<Rightarrow> int \<Rightarrow> string option \<Rightarrow> headline list" where
  "collect_headlines w api_key categories per_category country =
     fst (foldl (add_category w api_key per_category country) ([], {}) categories)"

text \<open>
  The items of all the API answers, in the order of the categories and of the answers.
\<close>

definition api_items ::
  "'f world \<Rightarrow> string \<Rightarrow> string list \<Rightarrow> int \<Rightarrow> string option \<Rightarrow> headline list" where
  "api_items w api_key categories per_category country =
     concat (map (\<lambda>cat. case gnews_request w api_key cat per_category country of
                           Inl e \<Rightarrow> [] | Inr items \<Rightarrow> items) categories)"

section \<open>Enrichment\<close>

text \<open>
  An element of the list that \<^verbatim>\<open>getNews\<close> returns. The headline-only records of step 4
  have no \<^verbatim>\<open>"text"\<close> key.
\<close>

record article =
  a_title :: string
  a_source :: string
  a_summary :: string
  a_text :: "string option"
  a_url :: string
  a_sentiment :: sentiment

text \<open>\<^verbatim>\<open>(item.get("source") or {}).get("name") or "Unknown"\<close>\<close>

definition source_name :: "source_field \<Rightarrow> exn + string" where
  "source_name src =
     (case src of
        SourceMissing \<Rightarrow> Inr ''Unknown''
      | SourceObject name \<Rightarrow> Inr (str_or name ''Unknown'')
      | SourceOther \<Rightarrow> Inl AttributeError)"

text \<open>
  \<^verbatim>\<open>_work\<close>: the outcome of the task, an exception or the value returned
  (\<^verbatim>\<open>Optional[dict]\<close>), and the state left behind.
\<close>

definition work ::
  "('f::linorder) world \<Rightarrow> headline \<Rightarrow> state \<Rightarrow> (exn + article option) \<times> state" where
  "work w item st =
     (let url = url_of item;
          title = str_or (h_title item) ''No Title''
      in case source_name (h_source item) of
           Inl e \<Rightarrow> (Inl e, st)
         | Inr source \<Rightarrow>
             let desc = str_or (h_description item) [] in
             (case fetchArticle w url st of
                Inl e \<Rightarrow> (Inl e, st)
              | Inr (art, st1) \<Rightarrow>
                  let text = (if fr_text art \<noteq> [] then fr_text art
                              else if desc \<noteq> [] then desc else title);
                      sent = analyze_sentiment (vader_sia w) (Some text);
                      summ = summarizeText (arith w) (charrefs w) text 3
                  in (Inr (Some \<lparr> a_title = title, a_source = source, a_summary = summ,
                                    a_text = Some text, a_url = url, a_sentiment = sent \<rparr>),
                      st1)))"

text \<open>
  The thread pool. Every task of \<^verbatim>\<open>ex.map(_work, chosen)\<close> is submitted at once; the
  workers run them in an order that the program does not control. \<open>sched\<close> is that
  order: at each step its head picks, among the tasks still pending, the one that runs
  next. A task runs as one step against the shared cache: the tasks of one run have
  different urls (step 1 lets no url in twice), so they read and write different keys. The
  result is the list of the outcomes with the number of their task, in the order of
  completion.
\<close>

function run_pool ::
  "('f::linorder) world \<Rightarrow> nat list \<Rightarrow> (nat \<times> headline) list \<Rightarrow> state
     \<Rightarrow> (nat \<times> (exn + article option)) list \<times> state" where
  "run_pool w sched pending st =
     (if pending = [] then ([], st)
      else
        let k = (case sched of [] \<Rightarrow> 0 | c # _ \<Rightarrow> c mod length pending);
            done1 = work w (snd (pending ! k)) st;
            rest = run_pool w (tl sched) (take k pending @ drop (Suc k) pending) (snd done1)
        in ((fst (pending ! k), fst done1) # fst rest, snd rest))"
  by pat_completeness auto
termination
proof (relation "measure (\<lambda>(w, sched, pending, st). length pending)")
  fix w :: "'f world" and sched :: "nat list" and pending :: "(nat \<times> headline) list"
    and st :: state and k :: nat and done1 :: "(exn + article option) \<times> state"
  assume "pending \<noteq> []" and "k = (case sched of [] \<Rightarrow> 0 | c # x \<Rightarrow> c mod length pending)"
  then have "k < length pending" by (cases sched) auto
  then show "((w, tl sched, take k pending @ drop (Suc k) pending, snd done1), w, sched, pending, st)
      \<in> measure (\<lambda>(w, sched, pending, st). length pending)"
    by simp
qed simp

declare run_pool.simps [simp del]

text \<open>
  \<^verbatim>\<open>for res in ex.map(_work, chosen): if res: out.append(res)\<close>. The iterator gives the
  outcomes in the order of submission and raises the exception of a task where its outcome
  is due.
\<close>

fun gather :: "article list \<Rightarrow> (exn + article option) list \<Rightarrow> exn + article list" where
  "gather out [] = Inr out"
| "gather out (Inl e # rs) = Inl e"
| "gather out (Inr None # rs) = gather out rs"
| "gather out (Inr (Some res) # rs) = gather (out @ [res]) rs"

text \<open>Step 3 of \<^verbatim>\<open>getNews\<close>. A pool of no worker cannot be built.\<close>

definition enrich ::
  "('f::linorder) world \<Rightarrow> nat list \<Rightarrow> int \<Rightarrow> headline list \<Rightarrow> state
     \<Rightarrow> (exn + article list) \<times> state" where
  "enrich w sched parallel_workers chosen st =
     (if parallel_workers \<le> 0 then (Inl ValueError, st)
      else
        let finished = run_pool w sched (enumerate 0 chosen) st;
            outcomes = map snd (sort_key fst (fst finished))
        in (gather [] outcomes, snd finished))"

text \<open>The record that step 4 builds from a headline.\<close>

definition headline_only :: "headline \<Rightarrow> exn + article" where
  "headline_only it =
     (case source_name (h_source it) of
        Inl e \<Rightarrow> Inl e
      | Inr source \<Rightarrow>
          Inr \<lparr> a_title = str_or (h_title it) ''No Title'', a_source = source,
                a_summary = str_or (h_description it) [], a_text = None,
                a_url = url_of it, a_sentiment = neutral_sentiment \<rparr>)"

fun append_headline_only :: "article list \<Rightarrow> headline list \<Rightarrow> exn + article list" where
  "append_headline_only out [] = Inr out"
| "append_headline_only out (it # its) =
     (case headline_only it of
        Inl e \<Rightarrow> Inl e
      | Inr res \<Rightarrow> append_headline_only (out @ [res]) its)"

text \<open>Step 4: \<^verbatim>\<open>if not out and headlines: ...\<close>\<close>

definition headline_fallback :: "article list \<Rightarrow> headline list \<Rightarrow> int \<Rightarrow> exn + article list" where
  "headline_fallback out headlines fetch_full =
     (if out = [] \<and> headlines \<noteq> []
      then append_headline_only out (py_prefix headlines (max 5 fetch_full))
      else Inr out)"

text \<open>The key of the final sort: \<^verbatim>\<open>(d["source"], _hash(d["title"]))\<close>.\<close>

definition sort_key_of :: "'f world \<Rightarrow> article \<Rightarrow> string \<times> string" where
  "sort_key_of w d = (a_source d, sha1_hex w (a_title d))"

text \<open>\<^verbatim>\<open>getNews\<close>\<close>

definition getNews ::
  "('f::linorder) world \<Rightarrow> nat list \<Rightarrow> string \<Rightarrow> string list \<Rightarrow> int \<Rightarrow> int \<Rightarrow> int
     \<Rightarrow> string option \<Rightarrow> state \<Rightarrow> (exn + article list) \<times> state" where
  "getNews w sched api_key categories per_category fetch_full parallel_workers country st =
     (let headlines = collect_headlines w api_key categories per_category country;
          chosen = headlines;
          enriched = enrich w sched parallel_workers chosen st
      in case fst enriched of
           Inl e \<Rightarrow> (Inl e, snd enriched)
         | Inr out \<Rightarrow>
             (case headline_fallback out headlines fetch_full of
                Inl e \<Rightarrow> (Inl e, snd enriched)
              | Inr out1 \<Rightarrow> (Inr (sort_key (sort_key_of w) out1), snd enriched)))"

section \<open>The endpoint of \<^verbatim>\<open>app.py\<close>\<close>

text \<open>
  A call with keyword arguments only: Python raises TypeError for a keyword that is not a
  parameter of the function and for a parameter without default that gets no argument;
  otherwise the body runs on the arguments.
\<close>

definition call_with_keywords ::
  "string list \<Rightarrow> string list \<Rightarrow> ((string \<times> 'v) list \<Rightarrow> exn + 'r) \<Rightarrow> (string \<times> 'v) list
     \<Rightarrow> (exn + 'r) \<times> bool" where
  "call_with_keywords parameters required body kwargs =
     (if \<not> list_all (\<lambda>k. k \<in> set parameters) (map fst kwargs) then (Inl TypeError, False)
      else if \<not> list_all (\<lambda>p. p \<in> set (map fst kwargs)) required then (Inl TypeError, False)
      else (body kwargs, True))"

text \<open>
  The signature of \<^verbatim>\<open>fetch_and_email_news\<close>: \<^verbatim>\<open>(recipient, name, params, *, api_key,
  per_category=8, fetch_full=12, parallel_workers=12, timezone_pref=None)\<close>.
\<close>

definition fetch_and_email_news_parameters :: "string list" where
  "fetch_and_email_news_parameters =
     [''recipient'', ''name'', ''params'', ''api_key'', ''per_category'', ''fetch_full'',
      ''parallel_workers'', ''timezone_pref'']"

definition fetch_and_email_news_required :: "string list" where
  "fetch_and_email_news_required = [''recipient'', ''name'', ''params'', ''api_key'']"

datatype response = Success | ErrorResponse int

definition required_keys :: "string list" where
  "required_keys = [''email'', ''name'', ''preferences'', ''api_key'', ''gmail_user'', ''gmail_pass'']"

text \<open>
  \<^verbatim>\<open>send_news\<close> on the JSON object \<open>data\<close> of the request. \<open>pipeline\<close> is the body of
  \<^verbatim>\<open>fetch_and_email_news\<close>. The result is the response, and whether that body was run.
  \<^verbatim>\<open>data[k]\<close> is \<open>map_of data k\<close>; the check of the required keys comes first, so it is
  never \<open>None\<close> where it is read.
\<close>

definition send_news ::
  "((string \<times> 'v option) list \<Rightarrow> exn + bool) \<Rightarrow> (string \<times> 'v) list \<Rightarrow> response \<times> bool" where
  "send_news pipeline data =
     (if \<not> list_all (\<lambda>k. k \<in> set (map fst data)) required_keys then (ErrorResponse 400, False)
      else
        let called = call_with_keywords fetch_and_email_news_parameters
                       fetch_and_email_news_required pipeline
                       [(''email'', map_of data ''email''),
                        (''name'', map_of data ''name''),
                        (''preferences'', map_of data ''preferences''),
                        (''api_key'', map_of data ''api_key''),
                        (''gmail_user'', map_of data ''gmail_user''),
                        (''gmail_pass'', map_of data ''gmail_pass'')]
        in case fst called of
             Inl e \<Rightarrow> (ErrorResponse 500, snd called)
           | Inr sent \<Rightarrow> (Success, snd called))"

section \<open>A sequence of fetches, and a small world for the examples\<close>

text \<open>The state after \<^verbatim>\<open>fetchArticle\<close> has been called on each url of a list in turn.\<close>

fun fetch_all :: "'f world \<Rightarrow> string list \<Rightarrow> state \<Rightarrow> state" where
  "fetch_all w [] st = st"
| "fetch_all w (url # urls) st =
     (case fetchArticle w url st of
        Inl e \<Rightarrow> st
      | Inr (r, st1) \<Rightarrow> fetch_all w urls st1)"

definition initial_state :: state where
  "initial_state = \<lparr> cache = Map.empty, requests = [] \<rparr>"

definition headline_alpha :: headline where
  "headline_alpha = \<lparr> h_url = Some ''http://a.example/1'', h_title = Some ''Alpha'',
     h_description = Some ''About alpha.'', h_source = SourceObject (Some ''Wire'') \<rparr>"

definition headline_beta :: headline where
  "headline_beta = \<lparr> h_url = Some ''http://b.example/2'', h_title = Some ''Beta'',
     h_description = None, h_source = SourceObject (Some ''Daily'') \<rparr>"

definition headline_beta_again :: headline where
  "headline_beta_again = \<lparr> h_url = Some ''http://b.example/2'', h_title = Some ''Beta again'',
     h_description = None, h_source = SourceObject (Some ''Other'') \<rparr>"

definition headline_no_url :: headline where
  "headline_no_url = \<lparr> h_url = Some [], h_title = Some ''Delta'',
     h_description = None, h_source = SourceMissing \<rparr>"

definition headline_gamma :: headline where
  "headline_gamma = \<lparr> h_url = Some ''http://c.example/3'', h_title = Some ''Gamma'',
     h_description = Some ''Rain fell here today.'', h_source = SourceObject (Some ''Wire'') \<rparr>"

text \<open>A headline whose \<^verbatim>\<open>"source"\<close> is a string, not an object.\<close>

definition headline_bad_source :: headline where
  "headline_bad_source = \<lparr> h_url = Some ''http://d.example/4'', h_title = Some ''Delta'',
     h_description = Some ''About delta.'', h_source = SourceOther \<rparr>"

text \<open>
  Two pages answer 200, every other url 404. The topic \<^verbatim>\<open>general\<close> has two headlines;
  \<^verbatim>\<open>technology\<close> repeats the url of one of them, has a headline without url and a new
  one; \<^verbatim>\<open>science\<close> has a headline with a malformed source between two good ones;
  \<^verbatim>\<open>local\<close> has that malformed headline alone; any other topic answers 500. There is no sentiment lexicon. The SHA-1 digests are those of
  the four titles.
\<close>

definition demo_world :: "rat world" where
  "demo_world =
     \<lparr> http_get = (\<lambda>url.
         if url = ''http://a.example/1'' then HttpResponse 200 ''page one''
         else if url = ''http://b.example/2'' then HttpResponse 200 ''page two''
         else HttpResponse 404 []),
       extract_article_text = (\<lambda>body.
         if body = ''page one'' then Inr (''Cats chase mice daily. Dogs chase cats often.'', None)
         else if body = ''page two'' then Inr ([], Some ''http://b.example/2.png'')
         else Inl ParserError),
       gnews_get = (\<lambda>q.
         if q_topic q = ''general'' then HttpResponse 200 (Inr (Some [headline_alpha, headline_beta]))
         else if q_topic q = ''technology'' then
           HttpResponse 200 (Inr (Some [headline_beta_again, headline_no_url, headline_gamma]))
         else if q_topic q = ''science'' then
           HttpResponse 200 (Inr (Some [headline_alpha, headline_bad_source, headline_gamma]))
         else if q_topic q = ''local'' then HttpResponse 200 (Inr (Some [headline_bad_source]))
         else HttpResponse 500 (Inr None)),
       vader_sia = None,
       charrefs = (\<lambda>s. s),
       sha1_hex = (\<lambda>s.
         if s = ''Alpha'' then ''58061aa544398a798e33181a443b15b7746fab16''
         else if s = ''Beta'' then ''f03b60f7e52b7ce49ed1e4f9fa511c452a2185bb''
         else if s = ''Gamma'' then ''cba508b12182b68f501d6af46c4f03f8fc5d2473''
         else if s = ''Delta'' then ''a4cbd21f4a3d17e82ad5cbcf3190e84dc97e8d7b''
         else []),
       arith = exact_ops \<rparr>"

text \<open>The same world at a moment when every page answers 503.\<close>

definition demo_world_down :: "rat world" where
  "demo_world_down = demo_world \<lparr> http_get := (\<lambda>url. HttpResponse 503 []) \<rparr>"

text \<open>What the enrichment of the three good headlines gives in that world.\<close>

definition article_alpha :: article where
  "article_alpha = \<lparr> a_title = ''Alpha'', a_source = ''Wire'',
     a_summary = ''Cats chase mice daily. Dogs chase cats often.'',
     a_text = Some ''Cats chase mice daily. Dogs chase cats often.'',
     a_url = ''http://a.example/1'', a_sentiment = neutral_sentiment \<rparr>"

definition article_beta :: article where
  "article_beta = \<lparr> a_title = ''Beta'', a_source = ''Daily'', a_summary = [],
     a_text = Some ''Beta'', a_url = ''http://b.example/2'', a_sentiment = neutral_sentiment \<rparr>"

definition article_gamma :: article where
  "article_gamma = \<lparr> a_title = ''Gamma'', a_source = ''Wire'',
     a_summary = ''Rain fell here today.'', a_text = Some ''Rain fell here today.'',
     a_url = ''http://c.example/3'', a_sentiment = neutral_sentiment \<rparr>"

text \<open>
  The invariant of the loops of step 1, for the proofs: \<open>pre\<close> is the list of the items
  read so far, \<open>acc\<close> the pair \<^verbatim>\<open>(headlines, seen_urls)\<close>.
\<close>

definition headlines_inv :: "headline list \<Rightarrow> headline list \<times> string set \<Rightarrow> bool" where
  "headlines_inv pre acc \<longleftrightarrow>
     snd acc = set (map url_of (fst acc))
     \<and> distinct (map url_of (fst acc))
     \<and> [] \<notin> set (map url_of (fst acc))
     \<and> set (map url_of (fst acc)) = set (map url_of pre) - {[]}
     \<and> subseq (fst acc) pre
     \<and> (\<forall>h \<in> set (fst acc). List.find (\<lambda>x. url_of x = url_of h) pre = Some h)"

text \<open>
  For the proofs about runs: the cache \<open>c\<close> is the cache \<open>c0\<close> with, for some urls that
  \<open>c0\<close> does not have, the entry that \<^verbatim>\<open>fetchArticle\<close> writes for them in the world
  \<open>w\<close>.
\<close>

definition cache_extends ::
  "'f world \<Rightarrow> (string \<rightharpoonup> fetch_result) \<Rightarrow> (string \<rightharpoonup> fetch_result) \<Rightarrow> bool" where
  "cache_extends w c0 c \<longleftrightarrow>
     (\<forall>u. c u = c0 u
        \<or> (c0 u = None
           \<and> c u = Some (case fetch_try w u of
                           Inr r \<Rightarrow> r
                         | Inl e \<Rightarrow> \<lparr> fr_text = [], fr_image = None \<rparr>)))"

section \<open>Facts about positions, stable sorting and selection\<close>

lemma fetchArticle_unfold:
  "fetchArticle w url st =
     (case cache st url of
        Some cached \<Rightarrow> Inr (cached, st)
      | None \<Rightarrow>
          let result = (case fetch_try w url of
                          Inr r \<Rightarrow> r
                        | Inl e \<Rightarrow> \<lparr> fr_text = [], fr_image = None \<rparr>)
          in Inr (result, st \<lparr> cache := (cache st)(url \<mapsto> result),
                               requests := requests st @ [url] \<rparr>))"
  by (simp add: fetchArticle_def fetch_lookup_def fetch_store_def Let_def split: option.splits)

lemma py_index_Some_iff: "(\<exists>i. py_index xs x = Some i) \<longleftrightarrow> x \<in> set xs"
  by (induction xs) auto

lemma py_index_None_iff: "py_index xs x = None \<longleftrightarrow> x \<notin> set xs"
  by (induction xs) auto

lemma py_index_fresh: "x \<notin> set pre \<Longrightarrow> py_index (pre @ x # rest) x = Some (length pre)"
  by (induction pre) auto

lemma py_index_prefix:
  "x \<in> set pre \<Longrightarrow> \<exists>i < length pre. py_index (pre @ rest) x = Some i"
  by (induction pre) auto

lemma sorted_wrt_from_decomposition:
  "(\<And>us a vs b ws. xs = us @ a # vs @ b # ws \<Longrightarrow> T a b) \<Longrightarrow> sorted_wrt T xs"
proof (induction xs)
  case Nil
  show ?case by simp
next
  case (Cons x xs)
  have "T x y" if "y \<in> set xs" for y
  proof -
    from that obtain vs ws where "xs = vs @ y # ws" by (auto dest: split_list)
    then have "x # xs = [] @ x # vs @ y # ws" by simp
    then show ?thesis by (rule Cons.prems)
  qed
  moreover have "sorted_wrt T xs"
  proof (rule Cons.IH)
    fix us a vs b ws
    assume "xs = us @ a # vs @ b # ws"
    then have "x # xs = (x # us) @ a # vs @ b # ws" by simp
    then show "T a b" by (rule Cons.prems)
  qed
  ultimately show ?case by simp
qed

lemma sorted_wrt_decomposition:
  "sorted_wrt T (us @ a # vs @ b # ws) \<Longrightarrow> T a b"
  by (simp add: sorted_wrt_append)

lemma sorted_reverse_order:
  fixes f :: "'a \<Rightarrow> 'k::linorder"
  assumes "sorted_wrt S xs"
  shows "sorted_wrt (\<lambda>a b. f b < f a \<or> (f a = f b \<and> S a b)) (sorted_reverse f xs)"
proof -
  let ?M = "sort_key f (rev xs)"
  have "sorted_wrt (\<lambda>a b. f a < f b \<or> (f b = f a \<and> S b a)) ?M"
  proof (rule sorted_wrt_from_decomposition)
    fix us a vs b ws
    assume dec: "?M = us @ a # vs @ b # ws"
    have "sorted (map f ?M)" by (rule sorted_sort_key)
    then have le: "f a \<le> f b" unfolding dec by (simp add: sorted_append)
    show "f a < f b \<or> (f b = f a \<and> S b a)"
    proof (cases "f a = f b")
      case False
      with le show ?thesis by simp
    next
      case True
      have "filter (\<lambda>y. f y = f a) ?M = filter (\<lambda>y. f y = f a) (rev xs)"
        by (rule sort_key_stable)
      moreover have "sorted_wrt (\<lambda>a b. S b a) (filter (\<lambda>y. f y = f a) (rev xs))"
        using assms by (simp add: sorted_wrt_filter sorted_wrt_rev)
      ultimately have "sorted_wrt (\<lambda>a b. S b a) (filter (\<lambda>y. f y = f a) ?M)" by simp
      then have "S b a" unfolding dec using True by (simp add: sorted_wrt_append)
      with True show ?thesis by simp
    qed
  qed
  then show ?thesis by (simp add: sorted_reverse_def sorted_wrt_rev)
qed

lemma set_sorted_reverse: "set (sorted_reverse f xs) = set xs"
  by (simp add: sorted_reverse_def)

lemma distinct_sorted_reverse: "distinct (sorted_reverse f xs) = distinct xs"
  by (simp add: sorted_reverse_def)

lemma sorted_wrt_take_drop:
  assumes "sorted_wrt R xs" "a \<in> set (take n xs)" "b \<in> set xs" "b \<notin> set (take n xs)"
  shows "R a b"
proof -
  have "set xs = set (take n xs) \<union> set (drop n xs)"
    by (metis append_take_drop_id set_append)
  with assms have "b \<in> set (drop n xs)" by blast
  moreover have "sorted_wrt R (take n xs @ drop n xs)" using assms(1) by simp
  ultimately show ?thesis using assms(2) unfolding sorted_wrt_append by blast
qed

lemma subseq_of_index_sorted:
  "set ys \<subseteq> set xs \<Longrightarrow> sorted_wrt (\<lambda>a b. py_index xs a < py_index xs b) ys \<Longrightarrow> subseq ys xs"
proof (induction xs arbitrary: ys)
  case Nil
  then show ?case by simp
next
  case (Cons x xs)
  show ?case
  proof (cases ys)
    case Nil
    then show ?thesis by simp
  next
    case (Cons y ys')
    have later: "a \<noteq> x \<and> a \<in> set xs" if "a \<in> set ys'" for a
    proof -
      from that Cons.prems(2) have "py_index (x # xs) y < py_index (x # xs) a"
        unfolding Cons by simp
      moreover from Cons.prems(1) obtain i where "py_index (x # xs) y = Some i"
        unfolding Cons using py_index_Some_iff [of "x # xs" y] by auto
      ultimately have "py_index (x # xs) a \<noteq> Some 0"
        by auto
      then have "a \<noteq> x" by auto
      moreover from that Cons.prems(1) have "a \<in> set (x # xs)" unfolding Cons by auto
      ultimately show ?thesis by simp
    qed
    have mono: "sorted_wrt (\<lambda>a b. py_index xs a < py_index xs b) zs"
      if "sorted_wrt (\<lambda>a b. py_index (x # xs) a < py_index (x # xs) b) zs" "x \<notin> set zs" "set zs \<subseteq> set xs" for zs
    proof (rule sorted_wrt_mono_rel [OF _ that(1)])
      fix a b assume "a \<in> set zs" "b \<in> set zs" "py_index (x # xs) a < py_index (x # xs) b"
      moreover from this that obtain i j where "py_index xs a = Some i" "py_index xs b = Some j"
        by (metis py_index_Some_iff subsetD)
      moreover have "x \<noteq> a" "x \<noteq> b" using that(2) \<open>a \<in> set zs\<close> \<open>b \<in> set zs\<close> by auto
      ultimately show "py_index xs a < py_index xs b" by simp
    qed
    show ?thesis
    proof (cases "y = x")
      case True
      have "sorted_wrt (\<lambda>a b. py_index xs a < py_index xs b) ys'"
        using Cons.prems(2) later unfolding Cons by (intro mono) auto
      moreover have "set ys' \<subseteq> set xs" using later by auto
      ultimately have "subseq ys' xs" by (intro Cons.IH)
      then show ?thesis unfolding Cons True by simp
    next
      case False
      have "x \<notin> set ys" using later False unfolding Cons by auto
      moreover have "set ys \<subseteq> set xs" using Cons.prems(1) \<open>x \<notin> set ys\<close> by auto
      ultimately have "sorted_wrt (\<lambda>a b. py_index xs a < py_index xs b) ys"
        using Cons.prems(2) by (intro mono)
      then have "subseq ys xs" using \<open>set ys \<subseteq> set xs\<close> by (intro Cons.IH)
      then show ?thesis by (rule list_emb_Cons)
    qed
  qed
qed

lemma score_step_keys:
  "map fst (score_step ops freq scores s) =
     (if 3 \<le> length (fast_words s) \<and> s \<notin> set (map fst scores)
      then map fst scores @ [s] else map fst scores)"
  by (auto simp: score_step_def Let_def update_keys)

lemma foldl_score_step_keys:
  assumes "set (map fst acc) \<subseteq> set pre"
    and "\<And>s. s \<in> set pre \<Longrightarrow> 3 \<le> length (fast_words s) \<Longrightarrow> s \<in> set (map fst acc)"
    and "distinct (map fst acc)"
    and "sorted_wrt (\<lambda>a b. py_index (pre @ xs) a < py_index (pre @ xs) b) (map fst acc)"
  shows "set (map fst (foldl (score_step ops freq) acc xs)) \<subseteq> set (pre @ xs)
       \<and> distinct (map fst (foldl (score_step ops freq) acc xs))
       \<and> sorted_wrt (\<lambda>a b. py_index (pre @ xs) a < py_index (pre @ xs) b)
           (map fst (foldl (score_step ops freq) acc xs))"
  using assms
proof (induction xs arbitrary: acc pre)
  case Nil
  then show ?case by simp
next
  case (Cons x xs)
  let ?acc = "score_step ops freq acc x"
  let ?idx = "py_index (pre @ x # xs)"
  have keys: "map fst ?acc =
     (if 3 \<le> length (fast_words x) \<and> x \<notin> set (map fst acc)
      then map fst acc @ [x] else map fst acc)"
    by (rule score_step_keys)
  have a1: "set (map fst ?acc) \<subseteq> set (pre @ [x])"
    using Cons.prems(1) unfolding keys by auto
  have a2: "s \<in> set (map fst ?acc)"
    if "s \<in> set (pre @ [x])" "3 \<le> length (fast_words s)" for s
    using that Cons.prems(2) [of s] unfolding keys by auto
  have a3: "distinct (map fst ?acc)"
    using Cons.prems(3) unfolding keys by auto
  have a4: "sorted_wrt (\<lambda>a b. py_index ((pre @ [x]) @ xs) a < py_index ((pre @ [x]) @ xs) b)
              (map fst ?acc)"
  proof (cases "3 \<le> length (fast_words x) \<and> x \<notin> set (map fst acc)")
    case False
    then have "map fst ?acc = map fst acc" unfolding keys by (rule if_not_P)
    then show ?thesis using Cons.prems(4) by simp
  next
    case True
    then have "x \<notin> set pre" using Cons.prems(2) [of x] by auto
    then have ix: "?idx x = Some (length pre)" by (rule py_index_fresh)
    have "?idx a < ?idx x" if "a \<in> set (map fst acc)" for a
    proof -
      from that Cons.prems(1) have "a \<in> set pre" by auto
      then obtain i where "i < length pre" "?idx a = Some i"
        using py_index_prefix [of a pre "x # xs"] by auto
      then show ?thesis using ix by simp
    qed
    moreover from True have "map fst ?acc = map fst acc @ [x]" unfolding keys by (rule if_P)
    ultimately show ?thesis using Cons.prems(4)
      by (simp add: sorted_wrt_append)
  qed
  have "set (map fst (foldl (score_step ops freq) ?acc xs)) \<subseteq> set ((pre @ [x]) @ xs)
       \<and> distinct (map fst (foldl (score_step ops freq) ?acc xs))
       \<and> sorted_wrt (\<lambda>a b. py_index ((pre @ [x]) @ xs) a < py_index ((pre @ [x]) @ xs) b)
           (map fst (foldl (score_step ops freq) ?acc xs))"
    using a1 a2 a3 a4 by (intro Cons.IH) auto
  then show ?case by simp
qed

lemma sentence_scores_keys:
  "set (map fst (sentence_scores ops freq sents)) \<subseteq> set sents"
  "distinct (map fst (sentence_scores ops freq sents))"
  "sorted_wrt (\<lambda>a b. py_index sents a < py_index sents b) (map fst (sentence_scores ops freq sents))"
  using foldl_score_step_keys [of "[]" "[]" sents ops freq]
  by (simp_all add: sentence_scores_def)

lemma py_prefix_nonneg: "0 \<le> n \<Longrightarrow> py_prefix xs n = take (nat n) xs"
  by (simp add: py_prefix_def)

lemma py_prefix_is_take: "\<exists>k. py_prefix xs n = take k xs"
  by (auto simp: py_prefix_def)

lemma py_index_inj: "a \<in> set xs \<Longrightarrow> py_index xs a = py_index xs b \<Longrightarrow> a = b"
proof (induction xs)
  case Nil
  then show ?case by simp
next
  case (Cons x xs)
  show ?case
  proof (cases "x = a \<or> x = b")
    case True
    then show ?thesis using Cons.prems
      by (cases "py_index xs a"; cases "py_index xs b") (auto split: if_splits)
  next
    case False
    then have "a \<in> set xs" using Cons.prems(1) by auto
    moreover have "py_index xs a = py_index xs b"
      using False Cons.prems(2)
      by (cases "py_index xs a"; cases "py_index xs b") auto
    ultimately show ?thesis by (rule Cons.IH)
  qed
qed

lemma sorted_key_strict:
  fixes f :: "'a \<Rightarrow> 'k::linorder"
  assumes "distinct xs" "inj_on f (set xs)"
  shows "sorted_wrt (\<lambda>a b. f a < f b) (sort_key f xs)"
proof -
  have "sorted (map f (sort_key f xs))" by (rule sorted_sort_key)
  moreover have "distinct (map f (sort_key f xs))"
    using assms by (simp add: distinct_map)
  ultimately have "sorted_wrt (<) (map f (sort_key f xs))"
    by (simp add: strict_sorted_iff)
  then show ?thesis by (simp add: sorted_wrt_map)
qed

lemma top_sentences_props:
  fixes ops :: "('f::linorder) float_ops"
  assumes sc: "sc = sentence_scores ops freq sents"
    and sel_def: "sel = top_sentences ops sc sents n"
  shows "set sel \<subseteq> set (map fst sc)"
    and "set (map fst sc) \<subseteq> set sents"
    and "distinct sel"
    and "sorted_wrt (\<lambda>a b. py_index sents a < py_index sents b) sel"
    and "0 \<le> n \<Longrightarrow> length sel \<le> nat n"
    and "0 \<le> n \<Longrightarrow> s \<in> set sel \<Longrightarrow> s' \<in> set (map fst sc) \<Longrightarrow> s' \<notin> set sel \<Longrightarrow>
           map_of sc s' < map_of sc s \<or>
           (map_of sc s' = map_of sc s \<and> py_index sents s < py_index sents s')"
proof -
  let ?keys = "map fst sc"
  let ?L = "sorted_reverse (map_of sc) ?keys"
  let ?idx = "py_index sents"
  obtain k where k: "py_prefix ?L n = take k ?L"
    using py_prefix_is_take by blast
  have sel: "sel = sort_key ?idx (take k ?L)"
    by (simp add: sel_def top_sentences_def k)
  have keys_sents: "set ?keys \<subseteq> set sents" and keys_dist: "distinct ?keys"
    and keys_sorted: "sorted_wrt (\<lambda>a b. ?idx a < ?idx b) ?keys"
    unfolding sc by (rule sentence_scores_keys)+
  show "set (map fst sc) \<subseteq> set sents" by (rule keys_sents)
  have set_sel: "set sel = set (take k ?L)" by (simp add: sel)
  have take_sub: "set (take k ?L) \<subseteq> set ?keys"
    using set_take_subset [of k ?L] by (simp add: set_sorted_reverse)
  show sub: "set sel \<subseteq> set (map fst sc)"
    using take_sub by (simp add: set_sel)
  have dist_take: "distinct (take k ?L)"
    using keys_dist by (simp add: distinct_sorted_reverse)
  then show "distinct sel" by (simp add: sel)
  have "inj_on ?idx (set (take k ?L))"
  proof (rule inj_onI)
    fix a b assume "a \<in> set (take k ?L)" "b \<in> set (take k ?L)" "?idx a = ?idx b"
    moreover from this take_sub keys_sents have "a \<in> set sents" by blast
    ultimately show "a = b" by (auto dest: py_index_inj)
  qed
  with dist_take show "sorted_wrt (\<lambda>a b. ?idx a < ?idx b) sel"
    unfolding sel by (rule sorted_key_strict)
  show "length sel \<le> nat n" if "0 \<le> n"
    using that by (simp add: sel_def top_sentences_def py_prefix_nonneg)
  show "map_of sc s' < map_of sc s \<or>
           (map_of sc s' = map_of sc s \<and> ?idx s < ?idx s')"
    if "0 \<le> n" "s \<in> set sel" "s' \<in> set (map fst sc)" "s' \<notin> set sel"
  proof -
    have "sorted_wrt (\<lambda>a b. map_of sc b < map_of sc a \<or> (map_of sc a = map_of sc b \<and> ?idx a < ?idx b)) ?L"
      using keys_sorted by (rule sorted_reverse_order)
    moreover have "s \<in> set (take k ?L)" using that(2) by (simp add: set_sel)
    moreover have "s' \<in> set ?L" using that(3) by (simp add: set_sorted_reverse)
    moreover have "s' \<notin> set (take k ?L)" using that(4) by (simp add: set_sel)
    ultimately have "map_of sc s' < map_of sc s \<or> (map_of sc s = map_of sc s' \<and> ?idx s < ?idx s')"
      by (rule sorted_wrt_take_drop)
    then show ?thesis by auto
  qed
qed

lemma fast_sentences_empty: "fast_sentences charref [] = []"
  by (simp add: fast_sentences_def html_unescape_def py_strip_def py_split_def)

lemma py_prefix_length: "0 \<le> n \<Longrightarrow> length (py_prefix xs n) \<le> nat n"
  by (simp add: py_prefix_def)

lemma py_prefix_subseq: "subseq (py_prefix xs n) xs"
  by (auto simp: py_prefix_def intro: prefix_imp_subseq take_is_prefix)

lemma py_prefix_subset: "set (py_prefix xs n) \<subseteq> set xs"
  by (auto simp: py_prefix_def dest: in_set_takeD)

lemma summary_sentences_fallback:
  "fast_words text = [] \<or> text_scores ops charref text = [] \<Longrightarrow>
   summary_sentences ops charref text n = py_prefix (fast_sentences charref text) n"
  by (auto simp: summary_sentences_def Let_def fast_sentences_empty py_prefix_def)

lemma summary_sentences_scored:
  "fast_words text \<noteq> [] \<Longrightarrow> text_scores ops charref text \<noteq> [] \<Longrightarrow>
   summary_sentences ops charref text n =
     top_sentences ops (text_scores ops charref text) (fast_sentences charref text) n"
proof -
  assume w: "fast_words text \<noteq> []" and sc: "text_scores ops charref text \<noteq> []"
  have "set (map fst (text_scores ops charref text)) \<subseteq> set (fast_sentences charref text)"
    unfolding text_scores_def by (rule sentence_scores_keys)
  with sc have "fast_sentences charref text \<noteq> []" by (cases "text_scores ops charref text") auto
  moreover from this have "text \<noteq> []" using fast_sentences_empty by auto
  ultimately show ?thesis using w sc by (simp add: summary_sentences_def Let_def)
qed

lemma tag_strip_id: "CHR ''<'' \<notin> set s \<Longrightarrow> tag_strip s = s"
  by (induction s) auto

lemma py_strip_sublist: "sublist (py_strip s) s"
proof -
  have "suffix (dropWhile is_space (rev (dropWhile is_space s))) (rev (dropWhile is_space s))"
    by (rule suffix_dropWhile)
  then have "sublist (dropWhile is_space (rev (dropWhile is_space s))) (rev (dropWhile is_space s))"
    by (rule suffix_imp_sublist)
  then have "sublist (py_strip s) (dropWhile is_space s)"
    by (simp add: py_strip_def sublist_rev_left)
  moreover have "sublist (dropWhile is_space s) s" by (rule sublist_dropWhile)
  ultimately show ?thesis by (rule sublist_order.order_trans)
qed

lemma sent_split_sublist: "p \<in> set (sent_split cur cs) \<Longrightarrow> sublist p (cur @ cs)"
proof (induction cur cs rule: sent_split.induct)
  case (1 cur)
  then show ?case by simp
next
  case (2 cur c cs)
  show ?case
  proof (cases "is_space c \<and> cur \<noteq> [] \<and> last cur \<in> set ''.!?''")
    case True
    with "2.prems" have "p = cur \<or> p \<in> set (sent_split [] (dropWhile is_space cs))" by auto
    then show ?thesis
    proof
      assume "p = cur"
      then show ?thesis by simp
    next
      assume "p \<in> set (sent_split [] (dropWhile is_space cs))"
      with True have "sublist p ([] @ dropWhile is_space cs)" by (intro "2.IH"(1)) auto
      then have "sublist p (dropWhile is_space cs)" by simp
      moreover have "sublist (dropWhile is_space cs) (cur @ c # cs)"
        by (metis suffix_dropWhile suffix_ConsI suffix_appendI suffix_imp_sublist)
      ultimately show ?thesis by (rule sublist_order.order_trans)
    qed
  next
    case False
    with "2.prems" have "p \<in> set (sent_split (cur @ [c]) cs)" by auto
    with False have "sublist p ((cur @ [c]) @ cs)" by (intro "2.IH"(2)) auto
    then show ?thesis by simp
  qed
qed

lemma fast_sentences_sublist:
  assumes "CHR ''<'' \<notin> set text" "CHR ''&'' \<notin> set text" "s \<in> set (fast_sentences charref text)"
  shows "sublist s text"
proof -
  from assms obtain p where p: "p \<in> set (sent_split [] (py_strip text))" and s: "s = py_strip p"
    by (auto simp: fast_sentences_def tag_strip_id html_unescape_def)
  from p have "sublist p (py_strip text)" using sent_split_sublist [of p "[]"] by simp
  then have "sublist p text" using py_strip_sublist by (rule sublist_order.order_trans)
  with py_strip_sublist [of p] show ?thesis unfolding s by (rule sublist_order.order_trans)
qed

section \<open>Claims about the summariser\<close>

text \<open>
  C1 (amended). For every text and every \<open>n \<ge> 0\<close>, \<^verbatim>\<open>summarizeText(text, n)\<close> is the join
  of at most \<open>n\<close> sentences. Each of them is, unchanged, one of the sentences that
  \<^verbatim>\<open>_fast_sentences\<close> finds in the text after it has removed the tags and unescaped the
  character references; when the text has no \<^verbatim>\<open><\<close> and no \<^verbatim>\<open>&\<close> each of them is a
  contiguous piece of the text itself. The selected sentences stand in the order they have
  in the text. On the scoring path a selected sentence \<open>s\<close> and a scored sentence \<open>s'\<close> that
  was left out satisfy: \<open>s'\<close> scores less than \<open>s\<close>, or they score the same and \<open>s\<close> comes
  first in the text.
\<close>

theorem summarizeText_selection:
  fixes ops :: "('f::linorder) float_ops"
  assumes "0 \<le> n"
  shows "summarizeText ops charref text n = join_space (summary_sentences ops charref text n)
    \<and> length (summary_sentences ops charref text n) \<le> nat n
    \<and> set (summary_sentences ops charref text n) \<subseteq> set (fast_sentences charref text)
    \<and> subseq (summary_sentences ops charref text n) (fast_sentences charref text)
    \<and> (CHR ''<'' \<notin> set text \<and> CHR ''&'' \<notin> set text \<longrightarrow>
         (\<forall>s \<in> set (summary_sentences ops charref text n). sublist s text))
    \<and> (fast_words text \<noteq> [] \<longrightarrow>
         (\<forall>s \<in> set (summary_sentences ops charref text n).
          \<forall>s' \<in> set (map fst (text_scores ops charref text)) - set (summary_sentences ops charref text n).
            map_of (text_scores ops charref text) s' < map_of (text_scores ops charref text) s
            \<or> (map_of (text_scores ops charref text) s' = map_of (text_scores ops charref text) s
               \<and> py_index (fast_sentences charref text) s < py_index (fast_sentences charref text) s')))"
proof -
  let ?sel = "summary_sentences ops charref text n"
  let ?sents = "fast_sentences charref text"
  let ?sc = "text_scores ops charref text"
  have sc: "?sc = sentence_scores ops (normalise_frequency ops (term_frequency (fast_words text))) ?sents"
    by (simp add: text_scores_def)
  have basic: "length ?sel \<le> nat n \<and> set ?sel \<subseteq> set ?sents \<and> subseq ?sel ?sents"
  proof (cases "fast_words text = [] \<or> ?sc = []")
    case True
    then have "?sel = py_prefix ?sents n" by (rule summary_sentences_fallback)
    then show ?thesis
      using assms by (simp add: py_prefix_length py_prefix_subseq py_prefix_subset)
  next
    case False
    then have sel: "?sel = top_sentences ops ?sc ?sents n"
      by (simp add: summary_sentences_scored)
    note props = top_sentences_props [OF sc sel]
    have sub: "set ?sel \<subseteq> set ?sents" using props(1) props(2) by blast
    moreover have "subseq ?sel ?sents" using sub props(4) by (rule subseq_of_index_sorted)
    moreover have "length ?sel \<le> nat n" using assms by (rule props(5))
    ultimately show ?thesis by simp
  qed
  have verbatim: "sublist s text"
    if "CHR ''<'' \<notin> set text" "CHR ''&'' \<notin> set text" "s \<in> set ?sel" for s
  proof -
    from that(3) basic have "s \<in> set ?sents" by blast
    with that(1,2) show ?thesis by (rule fast_sentences_sublist)
  qed
  have ties: "map_of ?sc s' < map_of ?sc s
      \<or> (map_of ?sc s' = map_of ?sc s \<and> py_index ?sents s < py_index ?sents s')"
    if "fast_words text \<noteq> []" "s \<in> set ?sel" "s' \<in> set (map fst ?sc)" "s' \<notin> set ?sel" for s s'
  proof -
    from that(3) have "?sc \<noteq> []" by auto
    with that(1) have sel: "?sel = top_sentences ops ?sc ?sents n"
      by (rule summary_sentences_scored)
    show ?thesis using assms that(2,3,4) by (rule top_sentences_props(6) [OF sc sel])
  qed
  show ?thesis
    using basic verbatim ties by (auto simp: summarizeText_def)
qed

text \<open>
  The theorem at a text of three sentences with \<open>n = 1\<close>: the second and third sentence
  tie at the top score (3.0, the frequencies being 1.0 and 0.5), and the earlier one wins.
\<close>

theorem summarizeText_selection_witness:
  "(0::int) \<le> 1
   \<and> summarizeText exact_ops (\<lambda>s. s)
        ''Rain fell here today. Cats chase mice daily. Dogs chase cats often.'' 1
       = ''Cats chase mice daily.''
   \<and> length (summary_sentences exact_ops (\<lambda>s. s)
        ''Rain fell here today. Cats chase mice daily. Dogs chase cats often.'' 1) \<le> nat 1
   \<and> sublist ''Cats chase mice daily.''
        ''Rain fell here today. Cats chase mice daily. Dogs chase cats often.''"
proof -
  let ?T = "''Rain fell here today. Cats chase mice daily. Dogs chase cats often.''"
  have sel: "summary_sentences exact_ops (\<lambda>s. s) ?T 1 = [''Cats chase mice daily.'']"
    by code_simp
  have clean: "CHR ''<'' \<notin> set ?T \<and> CHR ''&'' \<notin> set ?T"
    by simp
  have "(0::int) \<le> 1" by simp
  from summarizeText_selection [OF this, of exact_ops "\<lambda>s. s" ?T] sel clean
  show ?thesis by simp
qed

text \<open>
  C1 as stated fails on a text with a tag: the sentence returned is not a piece of the
  input. The text has no \<^verbatim>\<open>&\<close>, so the character-reference table is never consulted,
  and every float of this run (0.5, 1.0, 2.0) is exact.
\<close>

theorem summarizeText_verbatim_counterexample:
  "summarizeText exact_ops (\<lambda>s. s) ''Hello <b>big</b> world today.'' 3 = ''Hello big world today.''
   \<and> \<not> sublist ''Hello big world today.'' ''Hello <b>big</b> world today.''"
  by code_simp

text \<open>
  C10 (amended). When the text has words and at least one sentence was scored, the
  sentences that \<^verbatim>\<open>summarizeText\<close> joins are pairwise different, for every
  \<^verbatim>\<open>max_sentences\<close>: a sentence that occurs several times in the text is returned at
  most once. When the text has no word outside the stop words, or no sentence has three
  such words, the function returns the first sentences of the text as they are, repeated
  ones included.
\<close>

theorem summarizeText_distinct_when_scored:
  fixes ops :: "('f::linorder) float_ops"
  shows "summarizeText ops charref text n = join_space (summary_sentences ops charref text n)
    \<and> (fast_words text \<noteq> [] \<and> text_scores ops charref text \<noteq> [] \<longrightarrow>
         distinct (summary_sentences ops charref text n))
    \<and> (fast_words text = [] \<or> text_scores ops charref text = [] \<longrightarrow>
         summary_sentences ops charref text n = py_prefix (fast_sentences charref text) n)"
proof -
  have "distinct (summary_sentences ops charref text n)"
    if "fast_words text \<noteq> []" "text_scores ops charref text \<noteq> []"
  proof -
    have sc: "text_scores ops charref text =
        sentence_scores ops (normalise_frequency ops (term_frequency (fast_words text)))
          (fast_sentences charref text)"
      by (simp add: text_scores_def)
    from that have "summary_sentences ops charref text n =
        top_sentences ops (text_scores ops charref text) (fast_sentences charref text) n"
      by (rule summary_sentences_scored)
    then have sel: "summary_sentences ops charref text n =
        top_sentences ops (text_scores ops charref text) (fast_sentences charref text) n" .
    show ?thesis by (rule top_sentences_props(3) [OF sc sel])
  qed
  then show ?thesis
    using summary_sentences_fallback [of "text" ops charref n]
    by (auto simp: summarizeText_def)
qed

text \<open>
  The theorem at a text that repeats a scored sentence: it is returned once.
\<close>

theorem summarizeText_distinct_when_scored_witness:
  "fast_sentences (\<lambda>s. s) ''Cats chase mice daily. Cats chase mice daily.''
     = [''Cats chase mice daily.'', ''Cats chase mice daily.'']
   \<and> fast_words ''Cats chase mice daily. Cats chase mice daily.'' \<noteq> []
   \<and> text_scores exact_ops (\<lambda>s. s) ''Cats chase mice daily. Cats chase mice daily.'' \<noteq> []
   \<and> distinct (summary_sentences exact_ops (\<lambda>s. s)
        ''Cats chase mice daily. Cats chase mice daily.'' 3)
   \<and> summarizeText exact_ops (\<lambda>s. s) ''Cats chase mice daily. Cats chase mice daily.'' 3
       = ''Cats chase mice daily.''"
proof -
  let ?T = "''Cats chase mice daily. Cats chase mice daily.''"
  have a: "fast_sentences (\<lambda>s. s) ?T = [''Cats chase mice daily.'', ''Cats chase mice daily.'']"
    by code_simp
  have b: "fast_words ?T \<noteq> []" by code_simp
  have c: "text_scores exact_ops (\<lambda>s. s) ?T \<noteq> []" by code_simp
  have d: "summarizeText exact_ops (\<lambda>s. s) ?T 3 = ''Cats chase mice daily.''" by code_simp
  from summarizeText_distinct_when_scored [of exact_ops "\<lambda>s. s" ?T 3] a b c d
  show ?thesis by simp
qed

text \<open>
  C10 as stated fails where nothing is scored: every word of this text is a stop word, so
  \<^verbatim>\<open>summarizeText\<close> returns the first three sentences of the text, and the repeated
  sentence twice. No float is computed on this path and the text has no \<^verbatim>\<open>&\<close>.
\<close>

theorem summarizeText_duplicate_counterexample:
  "fast_sentences (\<lambda>s. s) ''It is so. It is so.'' = [''It is so.'', ''It is so.'']
   \<and> summary_sentences exact_ops (\<lambda>s. s) ''It is so. It is so.'' 3 = [''It is so.'', ''It is so.'']
   \<and> \<not> distinct (summary_sentences exact_ops (\<lambda>s. s) ''It is so. It is so.'' 3)
   \<and> summarizeText exact_ops (\<lambda>s. s) ''It is so. It is so.'' 3 = ''It is so. It is so.''"
  by code_simp

section \<open>Claims about sentiment and the article fetch\<close>

text \<open>
  C5 fails on the code where the package is there and its lexicon is not: the import of
  the module raises LookupError, so \<^verbatim>\<open>analyze_sentiment\<close> returns nothing, for any text,
  where the claim says \<^verbatim>\<open>{"compound": 0.0, "label": "neutral"}\<close>. The rest of the claim
  holds: a package that cannot be imported, an absent text and an empty text give exactly
  that neutral result; for any other text the result is the dict of the scorer on the
  first 5000 characters, labelled by the compound score the scorer has computed, positive
  exactly from 0.05 up, negative exactly from -0.05 down and neutral strictly between.
\<close>

theorem analyze_sentiment_lexicon_missing:
  "module_analyze_sentiment LexiconMissing txt = Inl LookupError
   \<and> module_analyze_sentiment PackageMissing txt
       = Inr \<lparr> sent_scores = [(''compound'', 0)], sent_label = Neutral \<rparr>
   \<and> module_analyze_sentiment (LexiconPresent polarity_scores) None
       = Inr \<lparr> sent_scores = [(''compound'', 0)], sent_label = Neutral \<rparr>
   \<and> module_analyze_sentiment (LexiconPresent polarity_scores) (Some [])
       = Inr \<lparr> sent_scores = [(''compound'', 0)], sent_label = Neutral \<rparr>
   \<and> module_analyze_sentiment (LexiconPresent polarity_scores) (Some (c # cs))
       = Inr \<lparr> sent_scores = polarity_scores (take 5000 (c # cs)),
               sent_label = sentiment_label
                 (dict_get (polarity_scores (take 5000 (c # cs))) ''compound'' 0) \<rparr>
   \<and> (sentiment_label x = Positive \<longleftrightarrow> 0.05 \<le> x)
   \<and> (sentiment_label x = Negative \<longleftrightarrow> x \<le> - 0.05)
   \<and> (sentiment_label x = Neutral \<longleftrightarrow> - 0.05 < x \<and> x < 0.05)
   \<and> sentiment_label 0.05 = Positive \<and> sentiment_label (- 0.05) = Negative
   \<and> sentiment_label 0 = Neutral"
  by (simp add: module_analyze_sentiment_def load_vader_def analyze_sentiment_def
      neutral_sentiment_def sentiment_label_def Let_def split: option.splits)

text \<open>
  C7. \<^verbatim>\<open>fetchArticle\<close> never lets an exception out: it always returns. When the url is
  not cached, a request that raises, an answer whose status is not 200 and an extraction
  that raises all give the result \<^verbatim>\<open>{"text": "", "image": None}\<close>.
\<close>

theorem fetchArticle_never_raises:
  "(\<exists>r st1. fetchArticle w url st = Inr (r, st1))
   \<and> (cache st url = None \<longrightarrow>
        (\<forall>e. http_get w url = HttpRaises e \<longrightarrow>
           (\<exists>st1. fetchArticle w url st = Inr (\<lparr> fr_text = [], fr_image = None \<rparr>, st1)))
      \<and> (\<forall>code body. http_get w url = HttpResponse code body \<and> code \<noteq> 200 \<longrightarrow>
           (\<exists>st1. fetchArticle w url st = Inr (\<lparr> fr_text = [], fr_image = None \<rparr>, st1)))
      \<and> (\<forall>body e. http_get w url = HttpResponse 200 body \<and> extract_article_text w body = Inl e \<longrightarrow>
           (\<exists>st1. fetchArticle w url st = Inr (\<lparr> fr_text = [], fr_image = None \<rparr>, st1))))"
  by (auto simp: fetchArticle_unfold fetch_try_def Let_def split: option.splits)

text \<open>The theorem at a url that answers 404.\<close>

theorem fetchArticle_never_raises_witness:
  "cache initial_state ''http://c.example/3'' = None
   \<and> http_get demo_world ''http://c.example/3'' = HttpResponse 404 []
   \<and> (\<exists>st1. fetchArticle demo_world ''http://c.example/3'' initial_state
          = Inr (\<lparr> fr_text = [], fr_image = None \<rparr>, st1))"
proof -
  have a: "cache initial_state ''http://c.example/3'' = None"
    by (simp add: initial_state_def)
  have b: "http_get demo_world ''http://c.example/3'' = HttpResponse 404 []"
    by (simp add: demo_world_def)
  show ?thesis
    using fetchArticle_never_raises [of demo_world "''http://c.example/3''" initial_state] a b
    by auto
qed

lemma fetchArticle_returns: "\<exists>r st1. fetchArticle w url st = Inr (r, st1)"
  by (simp add: fetchArticle_unfold Let_def split: option.splits)

lemma fetchArticle_hit: "cache st url = Some r \<Longrightarrow> fetchArticle w url st = Inr (r, st)"
  by (simp add: fetchArticle_unfold)

lemma fetchArticle_keeps:
  "cache st u = Some r0 \<Longrightarrow> fetchArticle w url st = Inr (r, st1) \<Longrightarrow> cache st1 u = Some r0"
  by (auto simp: fetchArticle_unfold Let_def split: option.splits)

lemma fetchArticle_stores:
  "fetchArticle w url st = Inr (r, st1) \<Longrightarrow> cache st1 url = Some r"
  by (auto simp: fetchArticle_unfold Let_def split: option.splits)

lemma fetchArticle_requests:
  "fetchArticle w url st = Inr (r, st1) \<Longrightarrow>
   requests st1 = requests st @ (if cache st url = None then [url] else [])"
  by (auto simp: fetchArticle_unfold Let_def split: option.splits)

lemma fetch_all_keeps:
  "cache st u = Some r0 \<Longrightarrow> cache (fetch_all w urls st) u = Some r0"
proof (induction urls arbitrary: st)
  case Nil
  then show ?case by simp
next
  case (Cons url urls)
  obtain r st1 where f: "fetchArticle w url st = Inr (r, st1)"
    using fetchArticle_returns by blast
  with Cons.prems have "cache st1 u = Some r0" by (rule fetchArticle_keeps)
  then have "cache (fetch_all w urls st1) u = Some r0" by (rule Cons.IH)
  then show ?case by (simp add: f)
qed

lemma fetchArticle_once:
  assumes "set (requests st) = dom (cache st)" "distinct (requests st)"
    and "fetchArticle w url st = Inr (r, st1)"
  shows "set (requests st1) = dom (cache st1) \<and> distinct (requests st1)"
proof (cases "cache st url")
  case None
  then have "url \<notin> set (requests st)" using assms(1) by auto
  moreover have "st1 = st \<lparr> cache := (cache st)(url \<mapsto> r), requests := requests st @ [url] \<rparr>"
    using assms(3) None by (auto simp: fetchArticle_unfold Let_def)
  ultimately show ?thesis using assms(1,2) by auto
next
  case (Some c)
  then have "st1 = st" using assms(3) by (simp add: fetchArticle_unfold)
  then show ?thesis using assms(1,2) by simp
qed

lemma fetch_all_once:
  "set (requests st) = dom (cache st) \<Longrightarrow> distinct (requests st) \<Longrightarrow>
   set (requests (fetch_all w urls st)) = dom (cache (fetch_all w urls st))
   \<and> distinct (requests (fetch_all w urls st))"
proof (induction urls arbitrary: st)
  case Nil
  then show ?case by simp
next
  case (Cons url urls)
  obtain r st1 where f: "fetchArticle w url st = Inr (r, st1)"
    using fetchArticle_returns by blast
  from Cons.prems f have "set (requests st1) = dom (cache st1) \<and> distinct (requests st1)"
    by (rule fetchArticle_once)
  then have "set (requests (fetch_all w urls st1)) = dom (cache (fetch_all w urls st1))
   \<and> distinct (requests (fetch_all w urls st1))"
    using Cons.IH by blast
  then show ?case by (simp add: f)
qed

text \<open>
  C3 (amended). For calls of \<^verbatim>\<open>fetchArticle\<close> that do not overlap, each running its look
  at the cache, its request and its write before the next call begins: a call for \<open>url\<close>
  that returns \<open>r\<close> leaves \<open>r\<close> in the cache under \<open>url\<close>, and has sent one request if
  the url was not cached and none if it was. After any further such calls, whatever the
  network answers then, the entry is still \<open>r\<close>, and a call for \<open>url\<close> returns \<open>r\<close> and
  leaves the state as it is: no request, no write. An entry that is in the cache is never
  overwritten, and from the empty cache no url is ever requested twice. The write of a call
  touches the entry of its own url only.
\<close>

theorem fetchArticle_cache_idempotent:
  assumes "fetchArticle w url st = Inr (r, st1)"
  shows "cache st1 url = Some r
    \<and> requests st1 = requests st @ (if cache st url = None then [url] else [])
    \<and> (\<forall>w' urls. cache (fetch_all w' urls st1) url = Some r
          \<and> fetchArticle w' url (fetch_all w' urls st1) = Inr (r, fetch_all w' urls st1))
    \<and> (\<forall>u r0 urls. cache st u = Some r0 \<longrightarrow> cache (fetch_all w urls st) u = Some r0)
    \<and> (\<forall>urls. distinct (requests (fetch_all w urls initial_state)))
    \<and> (\<forall>u found st2. u \<noteq> url \<longrightarrow> cache (snd (fetch_store url found st2)) u = cache st2 u)"
proof -
  have other: "cache (snd (fetch_store url found st2)) u = cache st2 u"
    if "u \<noteq> url" for u found st2
    using that by (cases found) (simp_all add: fetch_store_def)
  have stored: "cache st1 url = Some r" using assms by (rule fetchArticle_stores)
  have later: "cache (fetch_all w' urls st1) url = Some r
      \<and> fetchArticle w' url (fetch_all w' urls st1) = Inr (r, fetch_all w' urls st1)" for w' :: "'b world" and urls
  proof -
    have "cache (fetch_all w' urls st1) url = Some r" using stored by (rule fetch_all_keeps)
    then show ?thesis by (simp add: fetchArticle_hit)
  qed
  have once: "distinct (requests (fetch_all w urls initial_state))" for urls
    using fetch_all_once [of initial_state w urls] by (simp add: initial_state_def)
  have kept: "cache (fetch_all w urls st) u = Some r0" if "cache st u = Some r0" for u r0 urls
    using that by (rule fetch_all_keeps)
  note req = fetchArticle_requests [OF assms]
  show ?thesis
    by (intro conjI allI impI) (simp_all add: stored req later kept once other)
qed

text \<open>
  The theorem at a first fetch of a url that answers 404, followed by a fetch of another
  url and a second fetch of the first: one request each.
\<close>

theorem fetchArticle_cache_idempotent_witness:
  "fetchArticle demo_world ''http://c.example/3'' initial_state
     = Inr (\<lparr> fr_text = [], fr_image = None \<rparr>,
            initial_state \<lparr> cache := (cache initial_state)(''http://c.example/3'' \<mapsto> \<lparr> fr_text = [], fr_image = None \<rparr>),
                            requests := [''http://c.example/3''] \<rparr>)
   \<and> fetchArticle demo_world ''http://c.example/3''
        (fetch_all demo_world [''http://a.example/1'', ''http://c.example/3'']
          (initial_state \<lparr> cache := (cache initial_state)(''http://c.example/3'' \<mapsto> \<lparr> fr_text = [], fr_image = None \<rparr>),
                            requests := [''http://c.example/3''] \<rparr>))
     = Inr (\<lparr> fr_text = [], fr_image = None \<rparr>,
            fetch_all demo_world [''http://a.example/1'', ''http://c.example/3'']
          (initial_state \<lparr> cache := (cache initial_state)(''http://c.example/3'' \<mapsto> \<lparr> fr_text = [], fr_image = None \<rparr>),
                            requests := [''http://c.example/3''] \<rparr>))
   \<and> requests (fetch_all demo_world [''http://a.example/1'', ''http://c.example/3'']
          (initial_state \<lparr> cache := (cache initial_state)(''http://c.example/3'' \<mapsto> \<lparr> fr_text = [], fr_image = None \<rparr>),
                            requests := [''http://c.example/3''] \<rparr>))
      = [''http://c.example/3'', ''http://a.example/1'']"
proof -
  let ?st1 = "initial_state \<lparr> cache := (cache initial_state)(''http://c.example/3'' \<mapsto> \<lparr> fr_text = [], fr_image = None \<rparr>),
                            requests := [''http://c.example/3''] \<rparr>"
  have first: "fetchArticle demo_world ''http://c.example/3'' initial_state
     = Inr (\<lparr> fr_text = [], fr_image = None \<rparr>, ?st1)"
    by (simp add: fetchArticle_unfold fetch_try_def demo_world_def initial_state_def Let_def)
  have log: "requests (fetch_all demo_world [''http://a.example/1'', ''http://c.example/3''] ?st1)
      = [''http://c.example/3'', ''http://a.example/1'']"
    by (simp add: fetchArticle_unfold fetch_try_def demo_world_def initial_state_def Let_def)
  note inst = fetchArticle_cache_idempotent [OF first]
  from inst have "\<forall>w' :: rat world. \<forall>urls.
      cache (fetch_all w' urls ?st1) ''http://c.example/3'' = Some \<lparr> fr_text = [], fr_image = None \<rparr>
      \<and> fetchArticle w' ''http://c.example/3'' (fetch_all w' urls ?st1)
          = Inr (\<lparr> fr_text = [], fr_image = None \<rparr>, fetch_all w' urls ?st1)"
    by (elim conjE)
  then have "fetchArticle demo_world ''http://c.example/3''
        (fetch_all demo_world [''http://a.example/1'', ''http://c.example/3''] ?st1)
      = Inr (\<lparr> fr_text = [], fr_image = None \<rparr>,
             fetch_all demo_world [''http://a.example/1'', ''http://c.example/3''] ?st1)"
    by (elim allE conjE)
  with first log show ?thesis by (intro conjI)
qed

text \<open>
  C3 as stated fails for calls that overlap. Two calls for one url, the second looking at
  the cache before the first has written: both miss and both send a request; the first
  call writes and returns the page, the second, answered 503, then writes the empty result
  over that entry. Two requests are sent also when the network answers both alike.
\<close>

theorem fetchArticle_overlap_counterexample:
  "cache initial_state ''http://a.example/1'' = None
   \<and> fst (fst (overlapping_fetch demo_world demo_world_down ''http://a.example/1'' initial_state))
       = \<lparr> fr_text = ''Cats chase mice daily. Dogs chase cats often.'', fr_image = None \<rparr>
   \<and> cache (snd (fst (overlapping_fetch demo_world demo_world_down ''http://a.example/1''
                         initial_state))) ''http://a.example/1''
       = Some \<lparr> fr_text = ''Cats chase mice daily. Dogs chase cats often.'', fr_image = None \<rparr>
   \<and> fst (snd (overlapping_fetch demo_world demo_world_down ''http://a.example/1'' initial_state))
       = \<lparr> fr_text = [], fr_image = None \<rparr>
   \<and> cache (snd (snd (overlapping_fetch demo_world demo_world_down ''http://a.example/1''
                         initial_state))) ''http://a.example/1''
       = Some \<lparr> fr_text = [], fr_image = None \<rparr>
   \<and> requests (snd (snd (overlapping_fetch demo_world demo_world_down ''http://a.example/1''
                            initial_state)))
       = [''http://a.example/1'', ''http://a.example/1'']
   \<and> requests (snd (snd (overlapping_fetch demo_world demo_world ''http://a.example/1''
                            initial_state)))
       = [''http://a.example/1'', ''http://a.example/1'']"
  by (simp add: overlapping_fetch_def fetch_lookup_def fetch_store_def fetch_try_def
      demo_world_def demo_world_down_def initial_state_def Let_def)

section \<open>Claims about the headlines\<close>

lemma find_snoc:
  "List.find P (xs @ [x]) = (case List.find P xs of None \<Rightarrow> (if P x then Some x else None) | Some a \<Rightarrow> Some a)"
  by (induction xs) auto

lemma foldl_add_category:
  "foldl (add_category w api_key per_category country) acc cats =
   foldl add_item acc (api_items w api_key cats per_category country)"
proof (induction cats arbitrary: acc)
  case Nil
  show ?case by (simp add: api_items_def)
next
  case (Cons cat cats)
  show ?case
    using Cons.IH [of "add_category w api_key per_category country acc cat"]
    by (cases "gnews_request w api_key cat per_category country")
       (simp_all add: add_category_def api_items_def)
qed

lemma collect_headlines_fold:
  "collect_headlines w api_key cats per_category country =
   fst (foldl add_item ([], {}) (api_items w api_key cats per_category country))"
  by (simp add: collect_headlines_def foldl_add_category)

lemma headlines_inv_step:
  assumes "headlines_inv pre acc"
  shows "headlines_inv (pre @ [x]) (add_item acc x)"
proof (cases "url_of x = [] \<or> url_of x \<in> snd acc")
  case True
  then have same: "add_item acc x = acc" by (simp add: add_item_def)
  have "subseq (fst acc) (pre @ [x])"
    using assms by (auto simp: headlines_inv_def intro: list_emb_append_mono [of _ "fst acc" pre "[]" "[x]", simplified])
  moreover have "List.find (\<lambda>y. url_of y = url_of h) (pre @ [x]) = Some h" if "h \<in> set (fst acc)" for h
    using assms that by (simp add: headlines_inv_def find_snoc)
  moreover have "set (map url_of (fst acc)) = set (map url_of (pre @ [x])) - {[]}"
    using assms True by (auto simp: headlines_inv_def)
  ultimately show ?thesis using assms unfolding same by (simp add: headlines_inv_def)
next
  case False
  then have new: "add_item acc x = (fst acc @ [x], insert (url_of x) (snd acc))"
    by (simp add: add_item_def)
  from False assms have fresh: "url_of x \<notin> set (map url_of pre)" "url_of x \<noteq> []"
    by (auto simp: headlines_inv_def)
  have "subseq (fst acc @ [x]) (pre @ [x])"
    using assms by (simp add: headlines_inv_def)
  moreover have "List.find (\<lambda>y. url_of y = url_of h) (pre @ [x]) = Some h" if "h \<in> set (fst acc @ [x])" for h
  proof (cases "h \<in> set (fst acc)")
    case True
    then show ?thesis using assms by (simp add: headlines_inv_def find_snoc)
  next
    case False
    with that have "h = x" by simp
    moreover have "List.find (\<lambda>y. url_of y = url_of x) pre = None"
    proof -
      have "url_of y \<noteq> url_of x" if "y \<in> set pre" for y
        using fresh(1) that by (metis image_eqI set_map)
      then show ?thesis by (simp add: find_None_iff)
    qed
    ultimately show ?thesis by (simp add: find_snoc)
  qed
  moreover have "set (map url_of (fst acc @ [x])) = set (map url_of (pre @ [x])) - {[]}"
    using assms fresh by (auto simp: headlines_inv_def)
  moreover have "distinct (map url_of (fst acc @ [x]))"
    using assms False by (auto simp: headlines_inv_def)
  moreover have "[] \<notin> set (map url_of (fst acc @ [x]))"
    using assms fresh by (auto simp: headlines_inv_def)
  moreover have "insert (url_of x) (snd acc) = set (map url_of (fst acc @ [x]))"
    using assms by (auto simp: headlines_inv_def)
  ultimately show ?thesis unfolding new by (simp add: headlines_inv_def)
qed

lemma headlines_inv_foldl:
  "headlines_inv pre acc \<Longrightarrow> headlines_inv (pre @ items) (foldl add_item acc items)"
proof (induction items arbitrary: pre acc)
  case Nil
  then show ?case by simp
next
  case (Cons x items)
  from Cons.prems have "headlines_inv (pre @ [x]) (add_item acc x)" by (rule headlines_inv_step)
  then have "headlines_inv ((pre @ [x]) @ items) (foldl add_item (add_item acc x) items)"
    by (rule Cons.IH)
  then show ?case by simp
qed

lemma collect_headlines_inv:
  "headlines_inv (api_items w api_key cats per_category country)
     (foldl add_item ([], {}) (api_items w api_key cats per_category country))"
  using headlines_inv_foldl [of "[]" "([], {})"] by (simp add: headlines_inv_def)

text \<open>
  C4. For every list of categories and every answer of the API, the headlines that
  \<^verbatim>\<open>getNews\<close> accumulates have pairwise different urls, none of them empty, and their
  urls are exactly the non-empty urls of the items answered: each such url is there once,
  also when several categories deliver it. The headlines stand in the order of the
  answers, and each is the first of the answered items that has its url.
\<close>

theorem collect_headlines_dedup:
  "distinct (map url_of (collect_headlines w api_key cats per_category country))
   \<and> [] \<notin> set (map url_of (collect_headlines w api_key cats per_category country))
   \<and> set (map url_of (collect_headlines w api_key cats per_category country))
       = set (map url_of (api_items w api_key cats per_category country)) - {[]}
   \<and> subseq (collect_headlines w api_key cats per_category country)
        (api_items w api_key cats per_category country)
   \<and> (\<forall>h \<in> set (collect_headlines w api_key cats per_category country).
        List.find (\<lambda>x. url_of x = url_of h) (api_items w api_key cats per_category country) = Some h)"
  using collect_headlines_inv [of w api_key cats per_category country]
  unfolding collect_headlines_fold headlines_inv_def by blast

text \<open>
  The theorem at two categories that share a url, with an item without url, and a third
  category that answers 500.
\<close>

theorem collect_headlines_dedup_witness:
  "api_items demo_world ''key'' [''general'', ''technology'', ''sports''] 8 None
     = [headline_alpha, headline_beta, headline_beta_again, headline_no_url, headline_gamma]
   \<and> collect_headlines demo_world ''key'' [''general'', ''technology'', ''sports''] 8 None
     = [headline_alpha, headline_beta, headline_gamma]
   \<and> List.find (\<lambda>x. url_of x = url_of headline_beta)
        (api_items demo_world ''key'' [''general'', ''technology'', ''sports''] 8 None)
     = Some headline_beta
   \<and> distinct (map url_of (collect_headlines demo_world ''key'' [''general'', ''technology'', ''sports''] 8 None))"
proof -
  have a: "api_items demo_world ''key'' [''general'', ''technology'', ''sports''] 8 None
     = [headline_alpha, headline_beta, headline_beta_again, headline_no_url, headline_gamma]"
    by code_simp
  have b: "collect_headlines demo_world ''key'' [''general'', ''technology'', ''sports''] 8 None
     = [headline_alpha, headline_beta, headline_gamma]"
    by code_simp
  have c: "headline_beta \<in> set (collect_headlines demo_world ''key'' [''general'', ''technology'', ''sports''] 8 None)"
    unfolding b by simp
  show ?thesis
    using collect_headlines_dedup [of demo_world "''key''" "[''general'', ''technology'', ''sports'']" 8 None] a b c
    by blast
qed

section \<open>Runs of the pool, whatever the schedule\<close>

lemma cache_extends_refl: "cache_extends w c c"
  by (simp add: cache_extends_def)

lemma fetchArticle_extends:
  assumes "cache_extends w c0 (cache st)" "cache st0 = c0"
  shows "map_sum id fst (fetchArticle w u st) = map_sum id fst (fetchArticle w u st0)"
    and "fetchArticle w u st = Inr (r, st1) \<Longrightarrow> cache_extends w c0 (cache st1)"
proof -
  have c: "cache st u = c0 u \<or> (c0 u = None \<and> cache st u = Some (case fetch_try w u of
                           Inr r \<Rightarrow> r | Inl e \<Rightarrow> \<lparr> fr_text = [], fr_image = None \<rparr>))"
    using assms(1) by (simp add: cache_extends_def)
  then show "map_sum id fst (fetchArticle w u st) = map_sum id fst (fetchArticle w u st0)"
    using assms(2) by (auto simp: fetchArticle_unfold Let_def split: option.splits)
  show "cache_extends w c0 (cache st1)" if "fetchArticle w u st = Inr (r, st1)"
  proof (cases "cache st u")
    case (Some x)
    with that have "st1 = st" by (simp add: fetchArticle_unfold)
    with assms(1) show ?thesis by simp
  next
    case None
    with that have st1: "cache st1 = (cache st)(u \<mapsto> (case fetch_try w u of
                           Inr r \<Rightarrow> r | Inl e \<Rightarrow> \<lparr> fr_text = [], fr_image = None \<rparr>))"
      by (auto simp: fetchArticle_unfold Let_def)
    from None c have "c0 u = None" by auto
    then show ?thesis using assms(1) unfolding st1 cache_extends_def by auto
  qed
qed

lemma work_extends:
  assumes "cache_extends w c0 (cache st)" "cache st0 = c0"
  shows "fst (work w item st) = fst (work w item st0)"
    and "cache_extends w c0 (cache (snd (work w item st)))"
proof -
  let ?u = "url_of item"
  obtain r st1 where f: "fetchArticle w ?u st = Inr (r, st1)"
    using fetchArticle_returns by blast
  obtain r0 st01 where f0: "fetchArticle w ?u st0 = Inr (r0, st01)"
    using fetchArticle_returns by blast
  from fetchArticle_extends(1) [OF assms, of ?u] have rr: "r = r0" by (simp add: f f0)
  show "fst (work w item st) = fst (work w item st0)"
    by (cases "source_name (h_source item)") (simp_all add: work_def Let_def f f0 rr)
  have "cache_extends w c0 (cache st1)" using assms f by (rule fetchArticle_extends(2))
  then show "cache_extends w c0 (cache (snd (work w item st)))"
    using assms(1) by (cases "source_name (h_source item)") (simp_all add: work_def Let_def f)
qed

lemma run_pool_extends:
  assumes "cache st0 = c0"
  shows "cache_extends w c0 (cache st) \<Longrightarrow>
    mset (fst (run_pool w sched pending st)) = mset (map (\<lambda>p. (fst p, fst (work w (snd p) st0))) pending)
    \<and> cache_extends w c0 (cache (snd (run_pool w sched pending st)))"
proof (induction w sched pending st rule: run_pool.induct)
  case (1 w sched pending st)
  show ?case
  proof (cases "pending = []")
    case True
    then show ?thesis using "1.prems" by (simp add: run_pool.simps)
  next
    case False
    define k where "k = (case sched of [] \<Rightarrow> 0 | c # x \<Rightarrow> c mod length pending)"
    define done1 where "done1 = work w (snd (pending ! k)) st"
    define pending1 where "pending1 = take k pending @ drop (Suc k) pending"
    have k: "k < length pending" using False by (cases sched) (auto simp: k_def)
    have res: "fst done1 = fst (work w (snd (pending ! k)) st0)"
      and ext: "cache_extends w c0 (cache (snd done1))"
      unfolding done1_def using "1.prems" assms by (rule work_extends)+
    have IH: "mset (fst (run_pool w (tl sched) pending1 (snd done1)))
        = mset (map (\<lambda>p. (fst p, fst (work w (snd p) st0))) pending1)
      \<and> cache_extends w c0 (cache (snd (run_pool w (tl sched) pending1 (snd done1))))"
      unfolding pending1_def using False k_def done1_def ext by (rule "1.IH")
    have unfold: "run_pool w sched pending st =
        ((fst (pending ! k), fst done1) # fst (run_pool w (tl sched) pending1 (snd done1)),
         snd (run_pool w (tl sched) pending1 (snd done1)))"
      using False by (subst run_pool.simps) (simp add: Let_def k_def done1_def pending1_def)
    have split: "pending = take k pending @ pending ! k # drop (Suc k) pending"
      using k by (rule id_take_nth_drop)
    have "mset (map (\<lambda>p. (fst p, fst (work w (snd p) st0))) pending)
        = add_mset (fst (pending ! k), fst (work w (snd (pending ! k)) st0))
            (mset (map (\<lambda>p. (fst p, fst (work w (snd p) st0))) pending1))"
      by (subst split) (simp add: pending1_def)
    then show ?thesis using IH res by (simp add: unfold)
  qed
qed

lemma filter_key_single:
  "distinct (map f ys) \<Longrightarrow> k \<in> set ys \<Longrightarrow> filter (\<lambda>x. f k = f x) ys = [k]"
proof (induction ys)
  case Nil
  then show ?case by simp
next
  case (Cons y ys)
  show ?case
  proof (cases "k = y")
    case True
    have "filter (\<lambda>x. f y = f x) ys = []"
      using Cons.prems(1) by (auto simp: filter_empty_conv)
    then show ?thesis using True by simp
  next
    case False
    with Cons.prems have k: "k \<in> set ys" by simp
    have "f y \<notin> f ` set ys" using Cons.prems(1) by simp
    with k have "f k \<noteq> f y" by (metis imageI)
    moreover have "filter (\<lambda>x. f k = f x) ys = [k]"
      using Cons.prems(1) k by (intro Cons.IH) simp_all
    ultimately show ?thesis by simp
  qed
qed

lemma sort_key_unique:
  fixes f :: "'a \<Rightarrow> 'k::linorder"
  assumes "mset xs = mset ys" "sorted (map f ys)" "distinct (map f ys)"
  shows "sort_key f xs = ys"
proof (rule properties_for_sort_key)
  show "mset ys = mset xs" using assms(1) by simp
  show "sorted (map f ys)" by (rule assms(2))
  fix k assume k: "k \<in> set ys"
  have ys: "filter (\<lambda>x. f k = f x) ys = [k]" using assms(3) k by (rule filter_key_single)
  have "mset (filter (\<lambda>x. f k = f x) xs) = mset (filter (\<lambda>x. f k = f x) ys)"
    by (simp add: assms(1))
  also have "\<dots> = {#k#}" unfolding ys by simp
  finally have "filter (\<lambda>x. f k = f x) xs = [k]" unfolding mset_single_iff .
  with ys show "filter (\<lambda>x. f k = f x) ys = filter (\<lambda>x. f k = f x) xs" by simp
qed

lemma map_snd_comp: "map (\<lambda>p. g (snd p)) xs = map g (map snd xs)"
  by (induction xs) simp_all

lemma pool_outcomes:
  assumes "cache_extends w c0 (cache st)" "cache st0 = c0"
  shows "map snd (sort_key fst (fst (run_pool w sched (enumerate 0 items) st)))
      = map (\<lambda>it. fst (work w it st0)) items"
    and "cache_extends w c0 (cache (snd (run_pool w sched (enumerate 0 items) st)))"
proof -
  let ?ys = "map (\<lambda>p. (fst p, fst (work w (snd p) st0))) (enumerate 0 items)"
  have fst_ys: "map fst ?ys = [0..<length items]" by (simp add: comp_def)
  have "map snd ?ys = map (\<lambda>p. fst (work w (snd p) st0)) (enumerate 0 items)"
    by (simp add: comp_def)
  also have "\<dots> = map (\<lambda>it. fst (work w it st0)) (map snd (enumerate 0 items))"
    by (rule map_snd_comp)
  finally have snd_ys: "map snd ?ys = map (\<lambda>it. fst (work w it st0)) items"
    by (simp only: map_snd_enumerate)
  note rp = run_pool_extends [OF assms(2) assms(1), of sched "enumerate 0 items"]
  have m: "mset (fst (run_pool w sched (enumerate 0 items) st)) = mset ?ys"
    using rp by (rule conjunct1)
  have so: "sorted (map fst ?ys)" unfolding fst_ys by simp
  have di: "distinct (map fst ?ys)" unfolding fst_ys by simp
  have "sort_key fst (fst (run_pool w sched (enumerate 0 items) st)) = ?ys"
    using m so di by (rule sort_key_unique)
  then show "map snd (sort_key fst (fst (run_pool w sched (enumerate 0 items) st)))
      = map (\<lambda>it. fst (work w it st0)) items"
    using snd_ys by simp
  show "cache_extends w c0 (cache (snd (run_pool w sched (enumerate 0 items) st)))"
    using rp by simp
qed

lemma enrich_extends:
  assumes "cache_extends w c0 (cache st)" "cache st0 = c0"
  shows "fst (enrich w sched parallel_workers chosen st) =
      (if parallel_workers \<le> 0 then Inl ValueError
       else gather [] (map (\<lambda>it. fst (work w it st0)) chosen))"
    and "cache_extends w c0 (cache (snd (enrich w sched parallel_workers chosen st)))"
  using pool_outcomes(1) [OF assms] pool_outcomes(2) [OF assms] assms(1)
  by (simp_all add: enrich_def Let_def)

lemma getNews_extends:
  assumes "cache_extends w (cache st0) (cache st)"
  shows "fst (getNews w sched api_key cats per_category fetch_full parallel_workers country st)
       = fst (getNews w sched' api_key cats per_category fetch_full parallel_workers country st0)"
    and "cache_extends w (cache st0)
       (cache (snd (getNews w sched api_key cats per_category fetch_full parallel_workers country st)))"
proof -
  let ?hs = "collect_headlines w api_key cats per_category country"
  have e1: "fst (enrich w sched parallel_workers ?hs st) =
      (if parallel_workers \<le> 0 then Inl ValueError
       else gather [] (map (\<lambda>it. fst (work w it st0)) ?hs))"
    using assms refl by (rule enrich_extends(1))
  have "cache_extends w (cache st0) (cache st0)" by (rule cache_extends_refl)
  then have e2: "fst (enrich w sched' parallel_workers ?hs st0) =
      (if parallel_workers \<le> 0 then Inl ValueError
       else gather [] (map (\<lambda>it. fst (work w it st0)) ?hs))"
    using refl by (rule enrich_extends(1))
  have e: "fst (enrich w sched parallel_workers ?hs st) = fst (enrich w sched' parallel_workers ?hs st0)"
    using e1 e2 by simp
  show "fst (getNews w sched api_key cats per_category fetch_full parallel_workers country st)
       = fst (getNews w sched' api_key cats per_category fetch_full parallel_workers country st0)"
    by (simp add: getNews_def Let_def e split: sum.splits)
  have "cache_extends w (cache st0) (cache (snd (enrich w sched parallel_workers ?hs st)))"
    using assms refl by (rule enrich_extends(2))
  then show "cache_extends w (cache st0)
       (cache (snd (getNews w sched api_key cats per_category fetch_full parallel_workers country st)))"
    by (simp add: getNews_def Let_def split: sum.splits)
qed

text \<open>
  C2. Whenever \<^verbatim>\<open>getNews\<close> returns a list, the list is sorted ascending by the pair
  (source, SHA-1 of the title). What \<^verbatim>\<open>getNews\<close> returns or raises does not depend on the
  order in which the workers run the tasks: two runs from the same state in the same
  world give the same result under any two schedules, and so does a second run that
  starts from the cache the first run has left.
\<close>

theorem getNews_sorted_deterministic:
  "(\<forall>res st1. getNews w sched1 api_key cats per_category fetch_full parallel_workers country st
        = (Inr res, st1) \<longrightarrow> sorted (map (sort_key_of w) res))
   \<and> fst (getNews w sched1 api_key cats per_category fetch_full parallel_workers country st)
     = fst (getNews w sched2 api_key cats per_category fetch_full parallel_workers country st)
   \<and> fst (getNews w sched2 api_key cats per_category fetch_full parallel_workers country
         (snd (getNews w sched1 api_key cats per_category fetch_full parallel_workers country st)))
     = fst (getNews w sched1 api_key cats per_category fetch_full parallel_workers country st)"
proof -
  have sorted_res: "sorted (map (sort_key_of w) res)"
    if "getNews w sched1 api_key cats per_category fetch_full parallel_workers country st = (Inr res, st1)"
    for res st1
    using that by (auto simp: getNews_def Let_def split: sum.splits)
  have same: "fst (getNews w sched1 api_key cats per_category fetch_full parallel_workers country st)
     = fst (getNews w sched2 api_key cats per_category fetch_full parallel_workers country st)"
    using cache_extends_refl by (rule getNews_extends(1))
  have "cache_extends w (cache st)
       (cache (snd (getNews w sched1 api_key cats per_category fetch_full parallel_workers country st)))"
    using cache_extends_refl by (rule getNews_extends(2))
  then have again: "fst (getNews w sched2 api_key cats per_category fetch_full parallel_workers country
         (snd (getNews w sched1 api_key cats per_category fetch_full parallel_workers country st)))
     = fst (getNews w sched1 api_key cats per_category fetch_full parallel_workers country st)"
    by (rule getNews_extends(1))
  show ?thesis using sorted_res same again by blast
qed

text \<open>Runs in the small world, evaluated.\<close>

lemma demo_run:
  "fst (getNews demo_world [] ''key'' [''general'', ''technology'', ''sports''] 8 12 12 None initial_state)
     = Inr [article_beta, article_alpha, article_gamma]"
  by code_simp

lemma demo_keys:
  "map (sort_key_of demo_world) [article_beta, article_alpha, article_gamma]
     = [(''Daily'', ''f03b60f7e52b7ce49ed1e4f9fa511c452a2185bb''),
        (''Wire'', ''58061aa544398a798e33181a443b15b7746fab16''),
        (''Wire'', ''cba508b12182b68f501d6af46c4f03f8fc5d2473'')]"
  by code_simp

lemma demo_bad_run:
  "fst (getNews demo_world [] ''key'' [''science''] 8 12 12 None initial_state) = Inl AttributeError"
  by code_simp

text \<open>
  The theorem in the small world: the schedule that runs the tasks in the order of
  submission and the one that runs them last to first return the same sorted list, and so
  does a second run on the cache of the first.
\<close>

theorem getNews_sorted_deterministic_witness:
  "fst (getNews demo_world [2, 1, 0] ''key'' [''general'', ''technology'', ''sports''] 8 12 12 None
          initial_state)
     = Inr [article_beta, article_alpha, article_gamma]
   \<and> fst (getNews demo_world [2, 1, 0] ''key'' [''general'', ''technology'', ''sports''] 8 12 12 None
          (snd (getNews demo_world [] ''key'' [''general'', ''technology'', ''sports''] 8 12 12 None
                 initial_state)))
     = Inr [article_beta, article_alpha, article_gamma]
   \<and> sorted (map (sort_key_of demo_world) [article_beta, article_alpha, article_gamma])"
proof -
  let ?run = "\<lambda>sched. getNews demo_world sched ''key'' [''general'', ''technology'', ''sports''] 8 12 12 None"
  note inst = getNews_sorted_deterministic [of demo_world "[]" "''key''"
      "[''general'', ''technology'', ''sports'']" 8 12 12 None initial_state "[2, 1, 0]"]
  have "?run [] initial_state = (Inr [article_beta, article_alpha, article_gamma], snd (?run [] initial_state))"
    using demo_run by (metis prod.collapse)
  with inst have "sorted (map (sort_key_of demo_world) [article_beta, article_alpha, article_gamma])"
    by blast
  moreover from inst demo_run have "fst (?run [2, 1, 0] initial_state) = Inr [article_beta, article_alpha, article_gamma]"
    by simp
  moreover from inst demo_run have "fst (?run [2, 1, 0] (snd (?run [] initial_state)))
      = Inr [article_beta, article_alpha, article_gamma]"
    by simp
  ultimately show ?thesis by simp
qed

lemma gather_length:
  "\<forall>r \<in> set rs. r \<noteq> Inr None \<Longrightarrow> gather out rs = Inr res \<Longrightarrow>
   length res = length out + length rs"
proof (induction rs arbitrary: out)
  case Nil
  then show ?case by simp
next
  case (Cons r rs)
  show ?case
  proof (cases r)
    case (Inl e)
    with Cons.prems show ?thesis by simp
  next
    case (Inr v)
    with Cons.prems obtain a where a: "v = Some a" by (cases v) auto
    from Cons.prems have "\<forall>r \<in> set rs. r \<noteq> Inr None" by simp
    moreover from Cons.prems have "gather (out @ [a]) rs = Inr res" by (simp add: Inr a)
    ultimately have "length res = length (out @ [a]) + length rs" by (rule Cons.IH)
    then show ?thesis by simp
  qed
qed

lemma work_outcome: "fst (work w item st) \<noteq> Inr None"
proof -
  obtain r st1 where "fetchArticle w (url_of item) st = Inr (r, st1)"
    using fetchArticle_returns by blast
  then show ?thesis
    by (cases "source_name (h_source item)") (simp_all add: work_def Let_def)
qed

lemma enrich_one_per_headline:
  assumes "fst (enrich w sched parallel_workers hs st) = Inr out"
  shows "length out = length hs"
proof -
  have "cache_extends w (cache st) (cache st)" by (rule cache_extends_refl)
  then have "fst (enrich w sched parallel_workers hs st) =
      (if parallel_workers \<le> 0 then Inl ValueError
       else gather [] (map (\<lambda>it. fst (work w it st)) hs))"
    using refl by (rule enrich_extends(1))
  with assms have g: "gather [] (map (\<lambda>it. fst (work w it st)) hs) = Inr out"
    by (simp split: if_splits)
  have "\<forall>r \<in> set (map (\<lambda>it. fst (work w it st)) hs). r \<noteq> Inr None"
    using work_outcome by auto
  then have "length out = length ([] :: article list) + length (map (\<lambda>it. fst (work w it st)) hs)"
    using g by (rule gather_length)
  then show ?thesis by simp
qed

text \<open>
  C6 fails on the code. Step 3 hands step 4 one record for each headline or ends with an
  exception: the aggregate is never empty when there were headlines, so the condition
  \<^verbatim>\<open>not out and headlines\<close> of step 4 is never true and step 4 changes nothing. Where the
  enrichment fails, \<^verbatim>\<open>getNews\<close> raises instead of returning headline-only records: in the
  small world the topic \<^verbatim>\<open>local\<close> delivers one headline, its task raises AttributeError,
  and so does \<^verbatim>\<open>getNews\<close> under every schedule.
\<close>

theorem headline_fallback_unreachable:
  "\<not> (hs \<noteq> [] \<and> fst (enrich w sched parallel_workers hs st) = Inr [])
   \<and> (case fst (enrich w sched parallel_workers hs st) of
         Inl e \<Rightarrow> True
       | Inr out \<Rightarrow> length out = length hs \<and> headline_fallback out hs fetch_full = Inr out)
   \<and> collect_headlines demo_world ''key'' [''local''] 8 None = [headline_bad_source]
   \<and> (\<forall>sched. fst (getNews demo_world sched ''key'' [''local''] 8 12 12 None initial_state)
        = Inl AttributeError)"
proof -
  have a: "\<not> (hs \<noteq> [] \<and> fst (enrich w sched parallel_workers hs st) = Inr [])"
    using enrich_one_per_headline [of w sched parallel_workers hs st "[]"] by auto
  have b: "length out = length hs \<and> headline_fallback out hs fetch_full = Inr out"
    if "fst (enrich w sched parallel_workers hs st) = Inr out" for out
  proof -
    from that have "length out = length hs" by (rule enrich_one_per_headline)
    then show ?thesis by (cases hs) (auto simp: headline_fallback_def)
  qed
  have c: "collect_headlines demo_world ''key'' [''local''] 8 None = [headline_bad_source]"
    by code_simp
  have d: "fst (getNews demo_world sched ''key'' [''local''] 8 12 12 None initial_state)
        = Inl AttributeError" for sched
  proof -
    have "cache_extends demo_world (cache initial_state) (cache initial_state)"
      by (rule cache_extends_refl)
    then have "fst (getNews demo_world sched ''key'' [''local''] 8 12 12 None initial_state)
        = fst (getNews demo_world [] ''key'' [''local''] 8 12 12 None initial_state)"
      by (rule getNews_extends(1))
    also have "\<dots> = Inl AttributeError" by code_simp
    finally show ?thesis .
  qed
  show ?thesis using a b c d by (simp split: sum.splits)
qed

text \<open>
  C8 fails on the code. In the small world the topic \<^verbatim>\<open>science\<close> delivers three
  headlines, the second with a string as \<^verbatim>\<open>"source"\<close>: its task raises AttributeError,
  the loop over \<^verbatim>\<open>ex.map\<close> raises it again, and \<^verbatim>\<open>getNews\<close> ends with that exception under
  every schedule, the results of the two sibling tasks being lost.
\<close>

theorem getNews_aborts_on_failing_task:
  "collect_headlines demo_world ''key'' [''science''] 8 None
     = [headline_alpha, headline_bad_source, headline_gamma]
   \<and> (\<forall>st. fst (work demo_world headline_bad_source st) = Inl AttributeError)
   \<and> gather [] [Inr (Some article_alpha), Inl AttributeError, Inr (Some article_gamma)]
     = Inl AttributeError
   \<and> (\<forall>sched. fst (getNews demo_world sched ''key'' [''science''] 8 12 12 None initial_state)
        = Inl AttributeError)"
proof -
  have a: "collect_headlines demo_world ''key'' [''science''] 8 None
     = [headline_alpha, headline_bad_source, headline_gamma]"
    by code_simp
  have b: "fst (work demo_world headline_bad_source st) = Inl AttributeError" for st
    by (simp add: work_def headline_bad_source_def source_name_def Let_def)
  have c: "fst (getNews demo_world sched ''key'' [''science''] 8 12 12 None initial_state)
        = Inl AttributeError" for sched
  proof -
    have "cache_extends demo_world (cache initial_state) (cache initial_state)"
      by (rule cache_extends_refl)
    then have "fst (getNews demo_world sched ''key'' [''science''] 8 12 12 None initial_state)
        = fst (getNews demo_world [] ''key'' [''science''] 8 12 12 None initial_state)"
      by (rule getNews_extends(1))
    then show ?thesis using demo_bad_run by simp
  qed
  show ?thesis using a b c by simp
qed

text \<open>
  C9 fails on the code. \<^verbatim>\<open>send_news\<close> calls \<^verbatim>\<open>fetch_and_email_news\<close> with the keywords
  \<^verbatim>\<open>email\<close>, \<^verbatim>\<open>preferences\<close>, \<^verbatim>\<open>gmail_user\<close> and \<^verbatim>\<open>gmail_pass\<close>, which are not parameters
  of that function: the call raises TypeError before the body runs. So a request with all
  the required fields gets the response 500 and the pipeline is not run, whatever the
  pipeline would do; a request that lacks a field gets 400.
\<close>

theorem send_news_never_succeeds:
  "send_news pipeline data
     = (if list_all (\<lambda>k. k \<in> set (map fst data)) required_keys
        then (ErrorResponse 500, False) else (ErrorResponse 400, False))
   \<and> send_news (\<lambda>args. Inr True)
        [(''email'', ''ann@example.org''), (''name'', ''Ann''), (''preferences'', ''us''),
         (''api_key'', ''k''), (''gmail_user'', ''u''), (''gmail_pass'', ''p'')]
     = (ErrorResponse 500, False)"
  by (simp add: send_news_def call_with_keywords_def fetch_and_email_news_parameters_def
      fetch_and_email_news_required_def required_keys_def Let_def)

end
